theory Spec2Isabelle
  imports Complex_Main "HOL-Library.Monad_Syntax" "HOL-Library.Word"
begin

section \<open>Memory and loops\<close>

text \<open>
  The C arrays of \<^verbatim>\<open>distances_core.c\<close> are lists. An access outside the
  array is undefined behaviour in C; here it is the result \<open>None\<close>, which every
  caller passes on. The integer types \<^verbatim>\<open>int\<close> and \<^verbatim>\<open>inum\<close> are
  mathematical integers (array sizes are taken below the overflow of either type), and a
  \<^verbatim>\<open>double\<close> is a real number: rounding, underflow, infinities and NaN are
  not represented, so the theory speaks of the order of the computed distances and of
  the control flow, not of the exact values of the double arithmetic. The calls of
  \<^verbatim>\<open>wall_time\<close> and \<^verbatim>\<open>fprintf\<close> only report timings and are left out.
\<close>

definition rd :: "'a list \<Rightarrow> int \<Rightarrow> 'a option" where
  "rd a i = (if 0 \<le> i \<and> i < int (length a) then Some (a ! nat i) else None)"

definition wr :: "'a list \<Rightarrow> int \<Rightarrow> 'a \<Rightarrow> 'a list option" where
  "wr a i v = (if 0 \<le> i \<and> i < int (length a) then Some (a[nat i := v]) else None)"

text \<open>\<open>ival lo hi\<close> lists the values of \<^verbatim>\<open>for(i = lo; i < hi; i++)\<close>.\<close>

definition ival :: "int \<Rightarrow> int \<Rightarrow> int list" where
  "ival lo hi = map (\<lambda>k. lo + int k) [0..<nat (hi - lo)]"

text \<open>A loop body run over a list of index values, stopping at the first fault.\<close>

fun forM :: "'i list \<Rightarrow> ('i \<Rightarrow> 's \<Rightarrow> 's option) \<Rightarrow> 's \<Rightarrow> 's option" where
  "forM [] f s = Some s"
| "forM (i # is) f s = (case f i s of None \<Rightarrow> None | Some s' \<Rightarrow> forM is f s')"

fun mapM :: "('i \<Rightarrow> 'a option) \<Rightarrow> 'i list \<Rightarrow> 'a list option" where
  "mapM f [] = Some []"
| "mapM f (i # is) =
     (case f i of None \<Rightarrow> None
      | Some v \<Rightarrow> (case mapM f is of None \<Rightarrow> None | Some vs \<Rightarrow> Some (v # vs)))"

text \<open>The short-circuit operators \<^verbatim>\<open>&&\<close> and \<^verbatim>\<open>||\<close> over operands that may fault.\<close>

definition and_also :: "bool option \<Rightarrow> bool option \<Rightarrow> bool option" where
  "and_also a b = (case a of None \<Rightarrow> None | Some False \<Rightarrow> Some False | Some True \<Rightarrow> b)"

definition or_else :: "bool option \<Rightarrow> bool option \<Rightarrow> bool option" where
  "or_else a b = (case a of None \<Rightarrow> None | Some True \<Rightarrow> Some True | Some False \<Rightarrow> b)"

section \<open>Boundary extraction: \<^verbatim>\<open>find_edges\<close>\<close>

text \<open>
  The macro \<^verbatim>\<open>push\<close> appends to a buffer that doubles its capacity when full;
  the buffer is the list of its first \<open>n\<close> entries, and \<^verbatim>\<open>find_edges\<close>
  returns that list (its length is the returned count).
\<close>

definition push :: "int list \<Rightarrow> int \<Rightarrow> int list" where
  "push edges i = edges @ [i]"

definition is_zero :: "8 word list \<Rightarrow> int \<Rightarrow> bool option" where
  "is_zero msk i = map_option (\<lambda>m. m = 0) (rd msk i)"

definition non_zero :: "8 word list \<Rightarrow> int \<Rightarrow> bool option" where
  "non_zero msk i = map_option (\<lambda>m. m \<noteq> 0) (rd msk i)"

text \<open>The body \<^verbatim>\<open>if(mask[i] == 0) push(edges_, capacity, n, i)\<close> of the four border loops.\<close>

definition border_step :: "8 word list \<Rightarrow> int \<Rightarrow> int list \<Rightarrow> int list option" where
  "border_step msk i edges =
     (case is_zero msk i of None \<Rightarrow> None
      | Some z \<Rightarrow> Some (if z then push edges i else edges))"

text \<open>
  \<^verbatim>\<open>for(i = ...; i < stop; i += step) if(mask[i] == 0) push(...)\<close>, the two column
  loops. With a step that is not positive the C loop cannot end normally once it has
  been entered; that is \<open>None\<close> as well.
\<close>

function column_loop :: "8 word list \<Rightarrow> int \<Rightarrow> int \<Rightarrow> int \<Rightarrow> int list \<Rightarrow> int list option" where
  "column_loop msk step stop i edges =
     (if i < stop then
        (case border_step msk i edges of None \<Rightarrow> None
         | Some edges' \<Rightarrow>
             if 0 < step then column_loop msk step stop (i + step) edges' else None)
      else Some edges)"
  by pat_completeness auto
termination
  by (relation "measure (\<lambda>(msk, step, stop, i, edges). nat (stop - i))") auto

declare column_loop.simps [simp del]

text \<open>The body of the interior double loop.\<close>

definition interior_step :: "int \<Rightarrow> 8 word list \<Rightarrow> int \<Rightarrow> int \<Rightarrow> int list \<Rightarrow> int list option" where
  "interior_step nx msk y x edges =
     (let i = y * nx + x in
      case and_also (is_zero msk i)
             (or_else (non_zero msk (i - 1))
             (or_else (non_zero msk (i + 1))
             (or_else (non_zero msk (i - nx))
                      (non_zero msk (i + nx))))) of
        None \<Rightarrow> None
      | Some b \<Rightarrow> Some (if b then push edges i else edges))"

definition find_edges :: "int \<Rightarrow> int \<Rightarrow> 8 word list \<Rightarrow> int list option" where
  "find_edges ny nx msk = do {
     e1 \<leftarrow> forM (ival 0 nx) (border_step msk) [];
     e2 \<leftarrow> forM (ival ((ny - 1) * nx) (nx * nx)) (border_step msk) e1;
     e3 \<leftarrow> column_loop msk nx (ny * nx) nx e2;
     e4 \<leftarrow> column_loop msk nx (ny * nx) (nx - 1) e3;
     forM (ival 1 (ny - 1))
       (\<lambda>y. forM (ival 1 (nx - 1)) (interior_step nx msk y)) e4
   }"

section \<open>Brute-force assignment\<close>

text \<open>
  \<^verbatim>\<open>atan2\<close> of the C library over the reals: the angle of the point \<open>(x, y)\<close>
  in \<open>(-\<pi>, \<pi>]\<close>, and \<open>0\<close> at the origin.
\<close>

definition atan2 :: "real \<Rightarrow> real \<Rightarrow> real" where
  "atan2 y x =
     (if 0 < x then arctan (y / x)
      else if x < 0 then (if 0 \<le> y then arctan (y / x) + pi else arctan (y / x) - pi)
      else if 0 < y then pi / 2
      else if y < 0 then - (pi / 2)
      else 0)"

text \<open>
  The two output arrays of the brute-force functions: \<open>dists\<close>, and \<open>areas\<close>, which
  is \<open>None\<close> for a null pointer.
\<close>

type_synonym grids = "real list \<times> int list option"

text \<open>\<^verbatim>\<open>dists[i] = d; if(areas) areas[i] = j;\<close>\<close>

definition store_best :: "int \<Rightarrow> int \<Rightarrow> real \<Rightarrow> grids \<Rightarrow> grids option" where
  "store_best i j d g =
     (case g of (dists, areas) \<Rightarrow>
        (case wr dists i d of None \<Rightarrow> None
         | Some dists' \<Rightarrow>
             (case areas of None \<Rightarrow> Some (dists', None)
              | Some a \<Rightarrow> map_option (\<lambda>a'. (dists', Some a')) (wr a i j))))"

text \<open>
  The loops \<^verbatim>\<open>for(j = 0; j < npoint; j++)\<close> that fill \<^verbatim>\<open>edge_cos_dec\<close>
  and \<^verbatim>\<open>edge_sin_dec\<close> from the first \<open>n\<close> entries of an array.
\<close>

definition trig_table :: "real list \<Rightarrow> int \<Rightarrow> (real list \<times> real list) option" where
  "trig_table a n =
     map_option (\<lambda>decs. (map cos decs, map sin decs)) (mapM (rd a) (ival 0 n))"

text \<open>The body of the loop over the points in \<^verbatim>\<open>distance_from_points\<close>.\<close>

definition point_step ::
  "int \<Rightarrow> real list \<Rightarrow> real list \<Rightarrow> real list \<Rightarrow> real \<Rightarrow> real \<Rightarrow> real \<Rightarrow> int \<Rightarrow> int \<Rightarrow> grids \<Rightarrow> grids option" where
  "point_step npoint points edge_cos_dec edge_sin_dec pix_ra pix_cos_dec pix_sin_dec i j g = do {
     edge_ra \<leftarrow> rd points (j + npoint);
     ecd \<leftarrow> rd edge_cos_dec j;
     esd \<leftarrow> rd edge_sin_dec j;
     let dra = pix_ra - edge_ra;
     let cos_dra = cos dra;
     let sin_dra = sin dra;
     let y1 = ecd * sin_dra;
     let y2 = pix_cos_dec * esd - pix_sin_dec * ecd * cos_dra;
     let y = sqrt (y1 * y1 + y2 * y2);
     let x = pix_sin_dec * esd + pix_cos_dec * ecd * cos_dra;
     let d = atan2 y x;
     if j = 0 then store_best i j d g
     else do {
       old \<leftarrow> rd (fst g) i;
       if d < old then store_best i j d g else Some g
     }
   }"

text \<open>The body of the loop over the pixels in \<^verbatim>\<open>distance_from_points\<close>.\<close>

definition pixel_step ::
  "int \<Rightarrow> real list \<Rightarrow> int \<Rightarrow> real list \<Rightarrow> real list \<Rightarrow> real list \<Rightarrow> int \<Rightarrow> grids \<Rightarrow> grids option" where
  "pixel_step npix posmap npoint points edge_cos_dec edge_sin_dec i g = do {
     pix_dec \<leftarrow> rd posmap i;
     pix_ra \<leftarrow> rd posmap (i + npix);
     let pix_cos_dec = cos pix_dec;
     let pix_sin_dec = sin pix_dec;
     forM (ival 0 npoint)
       (point_step npoint points edge_cos_dec edge_sin_dec pix_ra pix_cos_dec pix_sin_dec i) g
   }"

definition distance_from_points ::
  "int \<Rightarrow> real list \<Rightarrow> int \<Rightarrow> real list \<Rightarrow> real list \<Rightarrow> int list option \<Rightarrow> grids option" where
  "distance_from_points npix posmap npoint points dists areas = do {
     (edge_cos_dec, edge_sin_dec) \<leftarrow> trig_table points npoint;
     forM (ival 0 npix)
       (pixel_step npix posmap npoint points edge_cos_dec edge_sin_dec) (dists, areas)
   }"

text \<open>
  \<^verbatim>\<open>distance_from_points_separable\<close>. The rows of the \<^verbatim>\<open>omp parallel for\<close>
  write disjoint cells, so they are run in order.
\<close>

definition point_step_separable ::
  "int \<Rightarrow> real list \<Rightarrow> real list \<Rightarrow> real list \<Rightarrow> real \<Rightarrow> real \<Rightarrow> real \<Rightarrow> int \<Rightarrow> int \<Rightarrow> grids \<Rightarrow> grids option" where
  "point_step_separable npoint points edge_cos_dec edge_sin_dec pix_ra pix_cos_dec pix_sin_dec i j g = do {
     edge_ra \<leftarrow> rd points (j + npoint);
     ecd \<leftarrow> rd edge_cos_dec j;
     esd \<leftarrow> rd edge_sin_dec j;
     let dra = pix_ra - edge_ra;
     let cos_dra = cos dra;
     let sin_dra = sin dra;
     let y1 = ecd * sin_dra;
     let y2 = pix_cos_dec * esd - pix_sin_dec * ecd * cos_dra;
     let wy = sqrt (y1 * y1 + y2 * y2);
     let wx = pix_sin_dec * esd + pix_cos_dec * ecd * cos_dra;
     let d = atan2 wy wx;
     if j = 0 then store_best i j d g
     else do {
       old \<leftarrow> rd (fst g) i;
       if d < old then store_best i j d g else Some g
     }
   }"

text \<open>The bodies of the loop over \<open>x\<close> and of the loop over \<open>y\<close>.\<close>

definition column_step ::
  "int \<Rightarrow> real list \<Rightarrow> int \<Rightarrow> real list \<Rightarrow> real list \<Rightarrow> real list \<Rightarrow> real \<Rightarrow> real \<Rightarrow> int \<Rightarrow> int \<Rightarrow> grids \<Rightarrow> grids option" where
  "column_step nx xpos npoint points edge_cos_dec edge_sin_dec pix_cos_dec pix_sin_dec y x g = do {
     pix_ra \<leftarrow> rd xpos x;
     let i = y * nx + x;
     forM (ival 0 npoint)
       (point_step_separable npoint points edge_cos_dec edge_sin_dec pix_ra pix_cos_dec pix_sin_dec i) g
   }"

definition row_step ::
  "int \<Rightarrow> real list \<Rightarrow> real list \<Rightarrow> int \<Rightarrow> real list \<Rightarrow> real list \<Rightarrow> real list \<Rightarrow> int \<Rightarrow> grids \<Rightarrow> grids option" where
  "row_step nx ypos xpos npoint points edge_cos_dec edge_sin_dec y g = do {
     pix_dec \<leftarrow> rd ypos y;
     let pix_cos_dec = cos pix_dec;
     let pix_sin_dec = sin pix_dec;
     forM (ival 0 nx)
       (column_step nx xpos npoint points edge_cos_dec edge_sin_dec pix_cos_dec pix_sin_dec y) g
   }"

definition distance_from_points_separable ::
  "int \<Rightarrow> int \<Rightarrow> real list \<Rightarrow> real list \<Rightarrow> int \<Rightarrow> real list \<Rightarrow> real list \<Rightarrow> int list option \<Rightarrow> grids option" where
  "distance_from_points_separable ny nx ypos xpos npoint points dists areas = do {
     (edge_cos_dec, edge_sin_dec) \<leftarrow> trig_table points npoint;
     forM (ival 0 ny)
       (row_step nx ypos xpos npoint points edge_cos_dec edge_sin_dec) (dists, areas)
   }"

text \<open>
  \<^verbatim>\<open>distance_transform\<close>: the edge pixels of the mask become the points
  (declinations first, then right ascensions), and the cells under a zero of the mask
  are set to zero afterwards.
\<close>

text \<open>\<^verbatim>\<open>if(mask[i] == 0) dists[i] = 0;\<close>\<close>

definition zero_interior :: "8 word list \<Rightarrow> int \<Rightarrow> real list \<Rightarrow> real list option" where
  "zero_interior msk i dists = do { z \<leftarrow> is_zero msk i; if z then wr dists i 0 else Some dists }"

definition distance_transform ::
  "int \<Rightarrow> int \<Rightarrow> 8 word list \<Rightarrow> real list \<Rightarrow> real list \<Rightarrow> real list option" where
  "distance_transform ny nx msk posmap dists = do {
     let npix = ny * nx;
     edges \<leftarrow> find_edges ny nx msk;
     let n = int (length edges);
     decs \<leftarrow> mapM (\<lambda>e. rd posmap e) edges;
     ras \<leftarrow> mapM (\<lambda>e. rd posmap (e + npix)) edges;
     (dists', areas') \<leftarrow> distance_from_points npix posmap n (decs @ ras) dists None;
     forM (ival 0 npix) (zero_interior msk) dists'
   }"

text \<open>
  The position map of a separable grid, in the words of the specification:
  \<open>posmap[y*nx+x] = ypos[y]\<close> and \<open>posmap[ny*nx + y*nx+x] = xpos[x]\<close>.
\<close>

definition separable_posmap :: "nat \<Rightarrow> nat \<Rightarrow> real list \<Rightarrow> real list \<Rightarrow> real list" where
  "separable_posmap ny nx ypos xpos =
     map (\<lambda>i. ypos ! (i div nx)) [0..<ny * nx] @ map (\<lambda>i. xpos ! (i mod nx)) [0..<ny * nx]"

text \<open>
  The Vincenty distance that the point loops compute between a pixel and a point, each
  given by declination and right ascension.
\<close>

definition vincenty :: "real \<Rightarrow> real \<Rightarrow> real \<Rightarrow> real \<Rightarrow> real" where
  "vincenty pix_dec pix_ra edge_dec edge_ra =
     (let dra = pix_ra - edge_ra;
          y1 = cos edge_dec * sin dra;
          y2 = cos pix_dec * sin edge_dec - sin pix_dec * cos edge_dec * cos dra;
          x = sin pix_dec * sin edge_dec + cos pix_dec * cos edge_dec * cos dra
      in atan2 (sqrt (y1 * y1 + y2 * y2)) x)"

section \<open>Wavefront propagation\<close>

definition dist_vincenty_helper :: "real \<Rightarrow> real \<Rightarrow> real \<Rightarrow> real \<Rightarrow> real \<Rightarrow> real \<Rightarrow> real" where
  "dist_vincenty_helper ra1 cos_dec1 sin_dec1 ra2 cos_dec2 sin_dec2 =
     (let dra = ra2 - ra1;
          cos_dra = cos dra;
          sin_dra = sin dra;
          y1 = cos_dec1 * sin_dra;
          y2 = cos_dec2 * sin_dec1 - sin_dec2 * cos_dec1 * cos_dra;
          y = sqrt (y1 * y1 + y2 * y2);
          x = sin_dec2 * sin_dec1 + cos_dec2 * cos_dec1 * cos_dra;
          d = atan2 y x
      in d)"

text \<open>The value \<^verbatim>\<open>1e300\<close> of a cell that no point has reached.\<close>

definition unvisited :: real where
  "unvisited = 10 ^ 300"

text \<open>
  What \<^verbatim>\<open>distance_from_points_treerings_separable\<close> only reads after its
  set-up: the grid size, the column positions, the points and the four tables of
  cosines and sines. A field \<open>e_v\<close> is the variable \<open>v\<close> of the C function.
\<close>

record env =
  e_ny :: int
  e_nx :: int
  e_xpos :: "real list"
  e_npoint :: int
  e_point_pos :: "real list"
  e_point_cos_dec :: "real list"
  e_point_sin_dec :: "real list"
  e_pix_cos_dec :: "real list"
  e_pix_sin_dec :: "real list"

text \<open>
  What it writes: the two grids and the two frontiers. A frontier is the list of the
  pairs \<open>(curr_y[k], curr_x[k])\<close> for \<open>k < curr_n\<close>; the capacities, which only
  steer \<^verbatim>\<open>realloc\<close>, are left out.
\<close>

record state =
  s_dists :: "real list"
  s_domains :: "int list"
  s_curr :: "(int \<times> int) list"
  s_next :: "(int \<times> int) list"

text \<open>The macro \<^verbatim>\<open>calc_dist(ipoint, y, x)\<close>.\<close>

definition calc_dist :: "env \<Rightarrow> int \<Rightarrow> int \<Rightarrow> int \<Rightarrow> real option" where
  "calc_dist E ipoint y x = do {
     ra1 \<leftarrow> rd (e_point_pos E) (ipoint + e_npoint E);
     cos_dec1 \<leftarrow> rd (e_point_cos_dec E) ipoint;
     sin_dec1 \<leftarrow> rd (e_point_sin_dec E) ipoint;
     ra2 \<leftarrow> rd (e_xpos E) x;
     cos_dec2 \<leftarrow> rd (e_pix_cos_dec E) y;
     sin_dec2 \<leftarrow> rd (e_pix_sin_dec E) y;
     Some (dist_vincenty_helper ra1 cos_dec1 sin_dec1 ra2 cos_dec2 sin_dec2)
   }"

text \<open>The macro \<^verbatim>\<open>update(y, x, dist, i)\<close>.\<close>

definition update :: "env \<Rightarrow> int \<Rightarrow> int \<Rightarrow> real \<Rightarrow> int \<Rightarrow> state \<Rightarrow> state option" where
  "update E y x distance i st = do {
     d \<leftarrow> wr (s_dists st) (y * e_nx E + x) distance;
     m \<leftarrow> wr (s_domains st) (y * e_nx E + x) i;
     Some (st\<lparr>s_dists := d, s_domains := m, s_next := s_next st @ [(y, x)]\<rparr>)
   }"

text \<open>
  The macro \<^verbatim>\<open>swap_buffers()\<close>: the next frontier becomes the current one, and
  the next one is empty (\<open>next_n = 0\<close>).
\<close>

definition swap_buffers :: "state \<Rightarrow> state" where
  "swap_buffers st = st\<lparr>s_curr := s_next st, s_next := []\<rparr>"

text \<open>The first loop: every cell of the grid becomes unvisited.\<close>

definition fill_step :: "int \<Rightarrow> real list \<times> int list \<Rightarrow> (real list \<times> int list) option" where
  "fill_step i g = (case g of (dists, domains) \<Rightarrow> do {
     d \<leftarrow> wr dists i unvisited;
     m \<leftarrow> wr domains i (- 1);
     Some (d, m)
   })"

definition initial :: "int \<Rightarrow> int \<Rightarrow> real list \<Rightarrow> int list \<Rightarrow> state option" where
  "initial ny nx dists domains =
     map_option (\<lambda>(d, m). \<lparr>s_dists = d, s_domains = m, s_curr = [], s_next = []\<rparr>)
       (forM (ival 0 (ny * nx)) fill_step (dists, domains))"

text \<open>The tables of cosines and sines of the points and of the rows.\<close>

definition precompute ::
  "int \<Rightarrow> int \<Rightarrow> real list \<Rightarrow> real list \<Rightarrow> int \<Rightarrow> real list \<Rightarrow> env option" where
  "precompute ny nx ypos xpos npoint point_pos = do {
     (point_cos_dec, point_sin_dec) \<leftarrow> trig_table point_pos npoint;
     (pix_cos_dec, pix_sin_dec) \<leftarrow> trig_table ypos ny;
     Some \<lparr>e_ny = ny, e_nx = nx, e_xpos = xpos, e_npoint = npoint, e_point_pos = point_pos,
            e_point_cos_dec = point_cos_dec, e_point_sin_dec = point_sin_dec,
            e_pix_cos_dec = pix_cos_dec, e_pix_sin_dec = pix_sin_dec\<rparr>
   }"

text \<open>The body of the loop that seeds the frontier with the pixels of the points.\<close>

definition seed :: "env \<Rightarrow> int list \<Rightarrow> int list \<Rightarrow> int \<Rightarrow> state \<Rightarrow> state option" where
  "seed E point_y point_x i st = do {
     y \<leftarrow> rd point_y i;
     x \<leftarrow> rd point_x i;
     distance \<leftarrow> calc_dist E i y x;
     update E y x distance i st
   }"

text \<open>\<^verbatim>\<open>if(v < 0) { v += n; } else if(v >= n) { v -= n; }\<close>\<close>

definition wrap :: "int \<Rightarrow> int \<Rightarrow> int" where
  "wrap n v = (if v < 0 then v + n else if n \<le> v then v - n else v)"

text \<open>The pairs \<open>(yoffs[oi], xoffs[oi])\<close>.\<close>

definition offsets :: "(int \<times> int) list" where
  "offsets = [(0, - 1), (0, 1), (- 1, 0), (1, 0)]"

text \<open>
  The body of the loop over the four neighbours of the pixel \<open>(y, x)\<close>, whose domain
  is \<open>ipoint\<close>. The distance is compared with the cell \<open>y2 * ny + x2\<close> and written
  to the cell \<open>y2 * nx + x2\<close>, as in the source.
\<close>

definition relax :: "env \<Rightarrow> int \<Rightarrow> int \<Rightarrow> int \<Rightarrow> int \<times> int \<Rightarrow> state \<Rightarrow> state option" where
  "relax E ipoint y x off st =
     (let y2 = wrap (e_ny E) (y + fst off);
          x2 = wrap (e_nx E) (x + snd off);
          pix2 = y2 * e_ny E + x2
      in do {
        cand_dist \<leftarrow> calc_dist E ipoint y2 x2;
        old \<leftarrow> rd (s_dists st) pix2;
        if cand_dist < old then update E y2 x2 cand_dist ipoint st else Some st
      })"

text \<open>The body of the loop over the current frontier.\<close>

definition visit :: "env \<Rightarrow> int \<times> int \<Rightarrow> state \<Rightarrow> state option" where
  "visit E p st = (case p of (y, x) \<Rightarrow> do {
     ipoint \<leftarrow> rd (s_domains st) (y * e_nx E + x);
     forM offsets (relax E ipoint y x) st
   })"

definition pass :: "env \<Rightarrow> state \<Rightarrow> state option" where
  "pass E st = forM (s_curr st) (visit E) st"

text \<open>
  The outcome of the function: it returns with the grids of a state, it makes an access
  outside an array, or the \<^verbatim>\<open>while\<close> loop has not ended after as many passes
  as the fuel allows, and then the state at the head of the loop is given.
\<close>

datatype outcome = Finished state | Fault | OutOfFuel state

fun propagate :: "nat \<Rightarrow> env \<Rightarrow> state \<Rightarrow> outcome" where
  "propagate 0 E st = (if s_curr st = [] then Finished st else OutOfFuel st)"
| "propagate (Suc fuel) E st =
     (if s_curr st = [] then Finished st
      else (case pass E st of None \<Rightarrow> Fault
            | Some st' \<Rightarrow> propagate fuel E (swap_buffers st')))"

definition distance_from_points_treerings_separable ::
  "nat \<Rightarrow> int \<Rightarrow> int \<Rightarrow> real list \<Rightarrow> real list \<Rightarrow> int \<Rightarrow> real list \<Rightarrow> int list \<Rightarrow> int list
   \<Rightarrow> real list \<Rightarrow> int list \<Rightarrow> outcome" where
  "distance_from_points_treerings_separable fuel ny nx ypos xpos npoint point_pos point_y point_x
     dists domains =
     (case initial ny nx dists domains of None \<Rightarrow> Fault
      | Some st0 \<Rightarrow>
     (case precompute ny nx ypos xpos npoint point_pos of None \<Rightarrow> Fault
      | Some E \<Rightarrow>
     (case forM (ival 0 npoint) (seed E point_y point_x) st0 of None \<Rightarrow> Fault
      | Some st \<Rightarrow> propagate fuel E (swap_buffers st))))"

text \<open>
  The coupling of the two grids on the pixels of the grid: a cell is unvisited in both
  or in neither, and a visited cell is owned by a point.
\<close>

definition coupled :: "int \<Rightarrow> int \<Rightarrow> state \<Rightarrow> bool" where
  "coupled npix npoint st \<longleftrightarrow>
     (\<forall>i \<in> {0..<nat npix}.
        i < length (s_dists st) \<and> i < length (s_domains st) \<and>
        ((s_domains st ! i = - 1) = (s_dists st ! i = unvisited)) \<and>
        (s_domains st ! i \<noteq> - 1 \<longrightarrow> 0 \<le> s_domains st ! i \<and> s_domains st ! i < npoint))"

text \<open>
  A frontier entry is owned when its cell of \<open>domains\<close> holds a point index; a state
  is settled when its grids are coupled and every frontier entry is owned.
\<close>

definition owned :: "env \<Rightarrow> state \<Rightarrow> int \<times> int \<Rightarrow> bool" where
  "owned E st p =
     (case rd (s_domains st) (fst p * e_nx E + snd p) of None \<Rightarrow> False
      | Some v \<Rightarrow> 0 \<le> v \<and> v < e_npoint E)"

definition settled :: "env \<Rightarrow> state \<Rightarrow> bool" where
  "settled E st \<longleftrightarrow>
     coupled (e_ny E * e_nx E) (e_npoint E) st \<and>
     (\<forall>p \<in> set (s_curr st) \<union> set (s_next st). owned E st p)"

text \<open>
  The tables of a grid of two rows, at the pole and on the equator, and three columns,
  with one point at the pixel \<open>(1, 1)\<close>.
\<close>

definition env_2x3 :: env where
  "env_2x3 = \<lparr>e_ny = 2, e_nx = 3, e_xpos = [- (pi / 4), 0, pi / 4], e_npoint = 1,
          e_point_pos = [0, 0], e_point_cos_dec = [1], e_point_sin_dec = [0],
          e_pix_cos_dec = [0, 1], e_pix_sin_dec = [1, 0]\<rparr>"

section \<open>Properties\<close>

subsection \<open>Loops and memory\<close>

lemma ival_0: "ival 0 n = map int [0..<nat n]"
  by (simp add: ival_def)

lemma rd_int: "rd a (int k) = (if k < length a then Some (a ! k) else None)"
  by (simp add: rd_def)

lemma wr_int: "wr a (int k) v = (if k < length a then Some (a[k := v]) else None)"
  by (simp add: wr_def)

lemma forM_append:
  "forM (xs @ ys) f s = (case forM xs f s of None \<Rightarrow> None | Some s' \<Rightarrow> forM ys f s')"
  by (induction xs arbitrary: s) (auto split: option.splits)

lemma forM_cong:
  "(\<And>i s. i \<in> set xs \<Longrightarrow> f i s = g i s) \<Longrightarrow> forM xs f s = forM xs g s"
  by (induction xs arbitrary: s) (auto split: option.splits)

lemma forM_map: "forM (map h xs) f s = forM xs (\<lambda>i. f (h i)) s"
  by (induction xs arbitrary: s) (auto split: option.splits)

lemma mapM_append:
  "mapM f (xs @ ys) =
     (case mapM f xs of None \<Rightarrow> None
      | Some vs \<Rightarrow> (case mapM f ys of None \<Rightarrow> None | Some ws \<Rightarrow> Some (vs @ ws)))"
  by (induction xs) (auto split: option.splits)

lemma mapM_rd_take:
  "n \<le> length a \<Longrightarrow> mapM (rd a) (map int [0..<n]) = Some (take n a)"
proof (induction n)
  case 0
  then show ?case by simp
next
  case (Suc n)
  then show ?case
    by (simp add: mapM_append rd_int take_Suc_conv_app_nth)
qed

lemma trig_table_take:
  "n \<le> length a \<Longrightarrow>
   trig_table a (int n) = Some (map cos (take n a), map sin (take n a))"
  by (simp add: trig_table_def ival_0 mapM_rd_take)

lemma trig_table_nonpos: "n \<le> 0 \<Longrightarrow> trig_table a n = Some ([], [])"
  by (simp add: trig_table_def ival_0)


lemma forM_unchanged:
  "(\<And>i. i \<in> set xs \<Longrightarrow> f i s = Some s) \<Longrightarrow> forM xs f s = Some s"
  by (induction xs) auto

subsection \<open>The boundary of a mask\<close>

text \<open>
  Claim C2. \<^verbatim>\<open>find_edges\<close> should return every zero pixel of the outer border,
  the bottom row included. The loop over the bottom row runs to \<open>nx * nx\<close> where the
  row ends at \<open>ny * nx\<close>; on a grid of four rows and three columns it does not run at
  all, and the zero pixel \<open>(3, 1)\<close> of the bottom row, flat index \<open>10\<close>, is missed.
\<close>

theorem find_edges_misses_bottom_row:
  "find_edges 4 3 [1, 1, 1,  1, 1, 1,  1, 1, 1,  1, 0, 1] = Some []"
  by code_simp

subsection \<open>The brute-force scan\<close>

lemma store_best_int:
  "i < length dists \<Longrightarrow> (\<And>a. areas = Some a \<Longrightarrow> i < length a) \<Longrightarrow>
   store_best (int i) j d (dists, areas) =
     Some (dists[i := d], map_option (\<lambda>a. a[i := j]) areas)"
  by (cases areas) (simp_all add: store_best_def wr_int)

lemma Min_upt_Suc:
  "0 < k \<Longrightarrow> Min (vd ` {0..<Suc k}) = min (vd k) (Min (vd ` {0..<k}))" for vd :: "nat \<Rightarrow> real"
proof -
  assume "0 < k"
  then have ne: "vd ` {0..<k} \<noteq> {}" by auto
  have "{0..<Suc k} = insert k {0..<k}" by auto
  then have "vd ` {0..<Suc k} = insert (vd k) (vd ` {0..<k})" by simp
  then show ?thesis using ne by (simp add: Min_insert)
qed

lemma Least_argmin_new:
  fixes vd :: "nat \<Rightarrow> real"
  assumes "0 < k" "vd k < Min (vd ` {0..<k})"
  shows "(LEAST j. j < Suc k \<and> vd j = vd k) = k"
proof (rule Least_equality)
  show "k < Suc k \<and> vd k = vd k" by simp
next
  fix y assume y: "y < Suc k \<and> vd y = vd k"
  show "k \<le> y"
  proof (rule ccontr)
    assume "\<not> k \<le> y"
    then have "y \<in> {0..<k}" by simp
    then have "Min (vd ` {0..<k}) \<le> vd y" by (intro Min_le) auto
    with assms y show False by simp
  qed
qed

lemma Least_argmin_old:
  fixes vd :: "nat \<Rightarrow> real"
  assumes "0 < k"
  shows "(LEAST j. j < Suc k \<and> vd j = Min (vd ` {0..<k}))
       = (LEAST j. j < k \<and> vd j = Min (vd ` {0..<k}))"
proof -
  let ?m = "Min (vd ` {0..<k})"
  let ?l = "LEAST j. j < k \<and> vd j = ?m"
  from assms have "?m \<in> vd ` {0..<k}" by (intro Min_in) auto
  then have ex: "\<exists>j. j < k \<and> vd j = ?m" by auto
  have l: "?l < k \<and> vd ?l = ?m" by (rule LeastI_ex [OF ex])
  show ?thesis
  proof (rule Least_equality)
    show "?l < Suc k \<and> vd ?l = ?m" using l by simp
  next
    fix y assume y: "y < Suc k \<and> vd y = ?m"
    show "?l \<le> y"
    proof (cases "y < k")
      case True
      with y show ?thesis by (intro Least_le) simp
    next
      case False
      with y l show ?thesis by simp
    qed
  qed
qed

lemma point_step_vincenty:
  assumes "j < np" "2 * np \<le> length points"
  shows "point_step (int np) points (map cos (take np points)) (map sin (take np points))
           pix_ra (cos pix_dec) (sin pix_dec) i (int j) g =
         (if j = 0 then store_best i 0 (vincenty pix_dec pix_ra (points ! j) (points ! (j + np))) g
          else (case rd (fst g) i of None \<Rightarrow> None
                | Some old \<Rightarrow>
                    if vincenty pix_dec pix_ra (points ! j) (points ! (j + np)) < old
                    then store_best i (int j) (vincenty pix_dec pix_ra (points ! j) (points ! (j + np))) g
                    else Some g))"
proof -
  from assms have "rd points (int j + int np) = Some (points ! (j + np))"
    by (simp add: rd_def nat_add_distrib)
  moreover from assms have "rd (map cos (take np points)) (int j) = Some (cos (points ! j))"
    by (simp add: rd_int)
  moreover from assms have "rd (map sin (take np points)) (int j) = Some (sin (points ! j))"
    by (simp add: rd_int)
  ultimately show ?thesis
    by (simp add: point_step_def vincenty_def Let_def split: option.splits)
qed

lemma point_loop:
  fixes vd :: "nat \<Rightarrow> real"
  assumes step: "\<And>j g. j < np \<Longrightarrow> f (int j) g =
         (if j = 0 then store_best (int i) 0 (vd j) g
          else (case rd (fst g) (int i) of None \<Rightarrow> None
                | Some old \<Rightarrow> if vd j < old then store_best (int i) (int j) (vd j) g else Some g))"
    and i: "i < length dists" "\<And>a. areas = Some a \<Longrightarrow> i < length a"
    and k: "0 < k" "k \<le> np"
  shows "forM (map int [0..<k]) f (dists, areas) =
         Some (dists[i := Min (vd ` {0..<k})],
               map_option (\<lambda>a. a[i := int (LEAST j. j < k \<and> vd j = Min (vd ` {0..<k}))]) areas)"
  using k
proof (induction k rule: nat_induct_non_zero)
  case 1
  have "{0..<1::nat} = {0}" by auto
  then have m: "Min (vd ` {0..<1}) = vd 0" by simp
  have "(LEAST j. j < 1 \<and> vd j = vd 0) = (0::nat)"
    by (rule Least_equality) auto
  with 1 m show ?case
    using step [of 0] i by (simp add: store_best_int)
next
  case (Suc k)
  define m where "m = Min (vd ` {0..<k})"
  define l where "l = (LEAST j. j < k \<and> vd j = m)"
  define D where "D = dists[i := m]"
  define A where "A = map_option (\<lambda>a. a[i := int l]) areas"
  have ih: "forM (map int [0..<k]) f (dists, areas) = Some (D, A)"
    using Suc by (simp add: m_def l_def D_def A_def)
  have kk: "k < np" "k \<noteq> 0" using Suc by simp_all
  have run: "forM (map int [0..<Suc k]) f (dists, areas) = f (int k) (D, A)"
    by (simp add: forM_append ih split: option.splits)
  have iD: "i < length D" using i by (simp add: D_def)
  have iA: "\<And>a. A = Some a \<Longrightarrow> i < length a"
    using i(2) by (cases areas) (auto simp: A_def)
  have fk: "f (int k) (D, A) =
      (if vd k < m then store_best (int i) (int k) (vd k) (D, A) else Some (D, A))"
    using step [OF kk(1), of "(D, A)"] kk(2) i by (simp add: rd_int D_def)
  have st: "store_best (int i) (int k) (vd k) (D, A) =
      Some (dists[i := vd k], map_option (\<lambda>a. a[i := int k]) areas)"
    using i by (cases areas) (simp_all add: store_best_def wr_int D_def A_def)
  show ?case
  proof (cases "vd k < m")
    case True
    then have "Min (vd ` {0..<Suc k}) = vd k"
      using Min_upt_Suc [OF Suc.hyps, of vd] by (simp add: m_def)
    moreover have "(LEAST j. j < Suc k \<and> vd j = vd k) = k"
      using Least_argmin_new [OF Suc.hyps] True by (simp only: m_def)
    ultimately show ?thesis
      using True by (simp only: run fk st if_True)
  next
    case False
    then have "Min (vd ` {0..<Suc k}) = m"
      using Min_upt_Suc [OF Suc.hyps, of vd] by (simp add: m_def)
    moreover have "(LEAST j. j < Suc k \<and> vd j = m) = l"
      using Least_argmin_old [OF Suc.hyps, of vd] by (simp only: m_def l_def)
    moreover have "forM (map int [0..<Suc k]) f (dists, areas) = Some (D, A)"
      using False by (simp only: run fk if_False)
    ultimately show ?thesis
      by (simp only: D_def A_def)
  qed
qed


lemma upd_prefix:
  "m < length xs \<Longrightarrow>
   (map (\<lambda>i. if i < m then f i else xs ! i) [0..<length xs])[m := f m] =
   map (\<lambda>i. if i < Suc m then f i else xs ! i) [0..<length xs]"
  by (rule nth_equalityI) (auto simp: nth_list_update less_Suc_eq)

lemma pixel_step_best:
  assumes np: "0 < np" "2 * np \<le> length points"
    and i: "i < npx" "2 * npx \<le> length posmap"
    and d: "i < length D" "\<And>a. A = Some a \<Longrightarrow> i < length a"
  shows "pixel_step (int npx) posmap (int np) points
           (map cos (take np points)) (map sin (take np points)) (int i) (D, A) =
         Some (D[i := Min ((\<lambda>j. vincenty (posmap ! i) (posmap ! (i + npx)) (points ! j) (points ! (j + np))) ` {0..<np})],
               map_option (\<lambda>a. a[i := int (LEAST j. j < np \<and>
                   vincenty (posmap ! i) (posmap ! (i + npx)) (points ! j) (points ! (j + np)) =
                   Min ((\<lambda>j. vincenty (posmap ! i) (posmap ! (i + npx)) (points ! j) (points ! (j + np))) ` {0..<np}))]) A)"
proof -
  have r1: "rd posmap (int i) = Some (posmap ! i)"
    using i by (simp add: rd_int)
  have r2: "rd posmap (int i + int npx) = Some (posmap ! (i + npx))"
    using i by (simp add: rd_def nat_add_distrib)
  have "forM (map int [0..<np])
          (point_step (int np) points (map cos (take np points)) (map sin (take np points))
             (posmap ! (i + npx)) (cos (posmap ! i)) (sin (posmap ! i)) (int i)) (D, A) =
        Some (D[i := Min ((\<lambda>j. vincenty (posmap ! i) (posmap ! (i + npx)) (points ! j) (points ! (j + np))) ` {0..<np})],
               map_option (\<lambda>a. a[i := int (LEAST j. j < np \<and>
                   vincenty (posmap ! i) (posmap ! (i + npx)) (points ! j) (points ! (j + np)) =
                   Min ((\<lambda>j. vincenty (posmap ! i) (posmap ! (i + npx)) (points ! j) (points ! (j + np))) ` {0..<np}))]) A)"
    by (rule point_loop [where np = np]) (use np d in \<open>simp_all add: point_step_vincenty\<close>)
  then show ?thesis
    by (simp add: pixel_step_def r1 r2 ival_0)
qed

lemma pixel_loop:
  assumes np: "0 < np" "2 * np \<le> length points"
    and px: "2 * npx \<le> length posmap" "npx \<le> length dists"
            "\<And>a. areas = Some a \<Longrightarrow> npx \<le> length a"
    and m: "m \<le> npx"
  shows "forM (map int [0..<m])
           (pixel_step (int npx) posmap (int np) points
              (map cos (take np points)) (map sin (take np points))) (dists, areas) =
         Some (map (\<lambda>i. if i < m
                  then Min ((\<lambda>j. vincenty (posmap ! i) (posmap ! (i + npx)) (points ! j) (points ! (j + np))) ` {0..<np})
                  else dists ! i) [0..<length dists],
               map_option (\<lambda>a. map (\<lambda>i. if i < m
                  then int (LEAST j. j < np \<and>
                     vincenty (posmap ! i) (posmap ! (i + npx)) (points ! j) (points ! (j + np)) =
                     Min ((\<lambda>j. vincenty (posmap ! i) (posmap ! (i + npx)) (points ! j) (points ! (j + np))) ` {0..<np}))
                  else a ! i) [0..<length a]) areas)"
  using m
proof (induction m)
  case 0
  show ?case by (cases areas) (simp_all add: map_nth)
next
  case (Suc m)
  define bd where "bd = (\<lambda>i. Min ((\<lambda>j. vincenty (posmap ! i) (posmap ! (i + npx)) (points ! j) (points ! (j + np))) ` {0..<np}))"
  define ba where "ba = (\<lambda>i. int (LEAST j. j < np \<and>
                     vincenty (posmap ! i) (posmap ! (i + npx)) (points ! j) (points ! (j + np)) = bd i))"
  define D where "D = map (\<lambda>i. if i < m then bd i else dists ! i) [0..<length dists]"
  define A where "A = map_option (\<lambda>a. map (\<lambda>i. if i < m then ba i else a ! i) [0..<length a]) areas"
  have ih: "forM (map int [0..<m])
           (pixel_step (int npx) posmap (int np) points
              (map cos (take np points)) (map sin (take np points))) (dists, areas) = Some (D, A)"
    using Suc.IH Suc.prems unfolding D_def A_def ba_def bd_def by simp
  have mm: "m < npx" using Suc by simp
  have lD: "m < length D" using mm px by (simp add: D_def)
  have lA: "\<And>a. A = Some a \<Longrightarrow> m < length a"
    using mm px(3) by (cases areas) (auto simp: A_def)
  have step: "pixel_step (int npx) posmap (int np) points
           (map cos (take np points)) (map sin (take np points)) (int m) (D, A) =
         Some (D[m := bd m], map_option (\<lambda>a. a[m := ba m]) A)"
    using pixel_step_best [OF np mm px(1) lD lA] by (simp add: bd_def ba_def)
  have D': "D[m := bd m] = map (\<lambda>i. if i < Suc m then bd i else dists ! i) [0..<length dists]"
    unfolding D_def using mm px by (intro upd_prefix) simp
  have A': "map_option (\<lambda>a. a[m := ba m]) A =
        map_option (\<lambda>a. map (\<lambda>i. if i < Suc m then ba i else a ! i) [0..<length a]) areas"
  proof (cases areas)
    case None
    then show ?thesis by (simp add: A_def)
  next
    case (Some a)
    then have "m < length a" using mm px(3) by fastforce
    then show ?thesis using Some by (simp add: A_def upd_prefix)
  qed
  have "forM (map int [0..<Suc m])
           (pixel_step (int npx) posmap (int np) points
              (map cos (take np points)) (map sin (take np points))) (dists, areas) =
        Some (map (\<lambda>i. if i < Suc m then bd i else dists ! i) [0..<length dists],
              map_option (\<lambda>a. map (\<lambda>i. if i < Suc m then ba i else a ! i) [0..<length a]) areas)"
    by (simp add: forM_append ih step D' A')
  then show ?case
    unfolding ba_def bd_def .
qed

text \<open>
  Claim C1. With at least one point and arrays that hold the pixels and points,
  \<^verbatim>\<open>distance_from_points\<close> returns, and then \<open>dists[i]\<close> is the least
  Vincenty distance from pixel \<open>i\<close> to a point, and \<open>areas[i]\<close>, when the array is
  given, is the least index of a point at that distance.
\<close>

theorem brute_force_minimum:
  assumes "1 \<le> npoint"
    and "2 * npoint \<le> int (length points)"
    and "2 * npix \<le> int (length posmap)"
    and "npix \<le> int (length dists)"
    and "\<And>a. areas = Some a \<Longrightarrow> npix \<le> int (length a)"
  shows "\<exists>dists' areas'.
     distance_from_points npix posmap npoint points dists areas = Some (dists', areas') \<and>
     length dists' = length dists \<and>
     (areas = None \<longleftrightarrow> areas' = None) \<and>
     (\<forall>i < nat npix.
        dists' ! i =
          Min ((\<lambda>j. vincenty (posmap ! i) (posmap ! (i + nat npix))
                       (points ! j) (points ! (j + nat npoint))) ` {0..<nat npoint}) \<and>
        (\<forall>a'. areas' = Some a' \<longrightarrow>
           a' ! i = int (LEAST j. j < nat npoint \<and>
              vincenty (posmap ! i) (posmap ! (i + nat npix))
                (points ! j) (points ! (j + nat npoint)) = dists' ! i)))"
proof -
  define np where "np = nat npoint"
  define npx where "npx = nat npix"
  have np: "0 < np" "2 * np \<le> length points" "npoint = int np"
    using assms by (simp_all add: np_def)
  have tt: "trig_table points (int np) = Some (map cos (take np points), map sin (take np points))"
    using np by (intro trig_table_take) simp
  have px: "2 * npx \<le> length posmap" "npx \<le> length dists"
           "\<And>a. areas = Some a \<Longrightarrow> npx \<le> length a"
    using assms by (simp_all add: npx_def)
  have iv: "ival 0 npix = map int [0..<npx]" by (simp add: ival_0 npx_def)
  show ?thesis
  proof (cases "0 \<le> npix")
    case True
    then have npix: "npix = int npx" by (simp add: npx_def)
    have run: "distance_from_points npix posmap npoint points dists areas = Some (
         map (\<lambda>i. if i < npx
                  then Min ((\<lambda>j. vincenty (posmap ! i) (posmap ! (i + npx)) (points ! j) (points ! (j + np))) ` {0..<np})
                  else dists ! i) [0..<length dists],
               map_option (\<lambda>a. map (\<lambda>i. if i < npx
                  then int (LEAST j. j < np \<and>
                     vincenty (posmap ! i) (posmap ! (i + npx)) (points ! j) (points ! (j + np)) =
                     Min ((\<lambda>j. vincenty (posmap ! i) (posmap ! (i + npx)) (points ! j) (points ! (j + np))) ` {0..<np}))
                  else a ! i) [0..<length a]) areas)"
      using pixel_loop [OF np(1,2) px order_refl]
      by (simp add: distance_from_points_def np(3) tt npix ival_0)
    show ?thesis
      unfolding run using px
      by (cases areas) (auto simp: np_def [symmetric] npx_def [symmetric])
  next
    case False
    then have "npx = 0" by (simp add: npx_def)
    then show ?thesis
      by (simp add: distance_from_points_def np(3) tt iv npx_def)
  qed
qed


theorem brute_force_minimum_witness:
  "\<exists>dists' areas'.
     distance_from_points 1 [0, 0] 2 [0, 0, 1, 0] [5] (Some [7]) = Some (dists', areas') \<and>
     length dists' = 1 \<and>
     dists' ! 0 = Min ((\<lambda>j. vincenty 0 0 ([0, 0, 1, 0] ! j) ([0, 0, 1, 0] ! (j + 2))) ` {0..<2}) \<and>
     (\<exists>a'. areas' = Some a' \<and>
        a' ! 0 = int (LEAST j. j < 2 \<and>
           vincenty 0 0 ([0, 0, 1, 0] ! j) ([0, 0, 1, 0] ! (j + 2)) = dists' ! 0))"
  using brute_force_minimum [of 2 "[0, 0, 1, 0]" 1 "[0, 0]" "[5]" "Some [7]"]
  by fastforce

subsection \<open>No points\<close>

lemma distance_from_points_no_points:
  assumes "2 * npix \<le> int (length posmap)"
  shows "distance_from_points npix posmap 0 points dists areas = Some (dists, areas)"
proof -
  have "forM (ival 0 npix) (pixel_step npix posmap 0 points [] []) (dists, areas) =
        Some (dists, areas)"
  proof (rule forM_unchanged)
    fix i assume "i \<in> set (ival 0 npix)"
    then have "0 \<le> i" "i < npix" by (auto simp: ival_0)
    with assms show "pixel_step npix posmap 0 points [] [] i (dists, areas) = Some (dists, areas)"
      by (simp add: pixel_step_def rd_def ival_0)
  qed
  then show ?thesis
    by (simp add: distance_from_points_def trig_table_nonpos)
qed

text \<open>
  Claim C10. With \<open>npoint = 0\<close> and a position map that holds the \<open>npix\<close> pixels,
  \<^verbatim>\<open>distance_from_points\<close> returns with \<open>dists\<close> and \<open>areas\<close> as they were
  passed.
\<close>

theorem no_points_writes_nothing:
  "2 * npix \<le> int (length posmap) \<Longrightarrow>
   distance_from_points npix posmap 0 points dists areas = Some (dists, areas)"
  by (rule distance_from_points_no_points)

theorem no_points_writes_nothing_witness:
  "distance_from_points 2 [0, 1, 2, 3] 0 [] [4, 5] (Some [6, 7]) = Some ([4, 5], Some [6, 7])"
  using no_points_writes_nothing [of 2 "[0, 1, 2, 3]" "[]" "[4, 5]" "Some [6, 7]"]
  by simp

subsection \<open>A mask without a zero\<close>

text \<open>
  Claim C4, as stated, fails: on a mask of ones \<^verbatim>\<open>distance_transform\<close> writes no
  cell of \<open>dists\<close>, so a cell that held \<open>5\<close> holds \<open>5\<close> afterwards, not zero.
\<close>

theorem all_ones_mask_keeps_dists:
  "distance_transform 1 1 [1] [0, 0] [5] = Some [5]"
  by (simp add: distance_transform_def find_edges_def ival_def border_step_def is_zero_def rd_def
      column_loop.simps distance_from_points_def trig_table_def pixel_step_def zero_interior_def)

lemma border_step_nonzero:
  "0 \<le> i \<Longrightarrow> i < int (length msk) \<Longrightarrow> \<forall>m \<in> set msk. m \<noteq> 0 \<Longrightarrow>
   border_step msk i e = Some e"
  by (simp add: border_step_def is_zero_def rd_def)

lemma border_loop_nonzero:
  assumes "0 \<le> lo" "hi \<le> int (length msk)" "\<forall>m \<in> set msk. m \<noteq> 0"
  shows "forM (ival lo hi) (border_step msk) e = Some e"
proof (rule forM_unchanged)
  fix i assume "i \<in> set (ival lo hi)"
  then have "lo \<le> i" "i < hi" by (auto simp: ival_def)
  with assms show "border_step msk i e = Some e"
    by (intro border_step_nonzero) auto
qed

lemma column_loop_nonzero:
  "0 < step \<Longrightarrow> 0 \<le> i \<Longrightarrow> stop \<le> int (length msk) \<Longrightarrow> \<forall>m \<in> set msk. m \<noteq> 0 \<Longrightarrow>
   column_loop msk step stop i e = Some e"
proof (induction msk step stop i e rule: column_loop.induct)
  case (1 msk step stop i edges)
  show ?case
  proof (cases "i < stop")
    case True
    then have b: "border_step msk i edges = Some edges"
      using 1 by (intro border_step_nonzero) auto
    have "column_loop msk step stop (i + step) edges = Some edges"
      using 1 True b by (intro "1.IH") auto
    then show ?thesis
      using True b 1 by (subst column_loop.simps) simp
  next
    case False
    then show ?thesis by (subst column_loop.simps) simp
  qed
qed

lemma interior_index:
  fixes y x ny nx :: int
  assumes "1 \<le> y" "y < ny - 1" "1 \<le> x" "x < nx - 1"
  shows "0 \<le> y * nx + x" "y * nx + x < ny * nx"
proof -
  show "0 \<le> y * nx + x" using assms by simp
  have "y * nx + x < y * nx + nx" using assms by simp
  also have "\<dots> = (y + 1) * nx" by (simp add: algebra_simps)
  also have "\<dots> \<le> ny * nx" using assms by (intro mult_right_mono) auto
  finally show "y * nx + x < ny * nx" .
qed

lemma interior_step_nonzero:
  assumes "1 \<le> y" "y < ny - 1" "1 \<le> x" "x < nx - 1"
    and "ny * nx \<le> int (length msk)" "\<forall>m \<in> set msk. m \<noteq> 0"
  shows "interior_step nx msk y x e = Some e"
proof -
  have "0 \<le> y * nx + x" "y * nx + x < int (length msk)"
    using interior_index [OF assms(1-4)] assms(5) by auto
  then have "is_zero msk (y * nx + x) = Some False"
    using assms(6) by (simp add: is_zero_def rd_def)
  then show ?thesis
    by (simp add: interior_step_def and_also_def)
qed

lemma find_edges_all_nonzero:
  assumes "1 \<le> nx" "nx \<le> ny" "ny * nx \<le> int (length msk)" "\<forall>m \<in> set msk. m \<noteq> 0"
  shows "find_edges ny nx msk = Some []"
proof -
  have sq: "nx * nx \<le> ny * nx" using assms by (intro mult_right_mono) auto
  have "nx * 1 \<le> nx * nx" using assms by (intro mult_left_mono) auto
  then have "nx \<le> nx * nx" by (simp only: mult_1_right)
  then have nxl: "nx \<le> int (length msk)" using sq assms(3) by linarith
  have e1: "forM (ival 0 nx) (border_step msk) [] = Some []"
    using assms nxl by (intro border_loop_nonzero) auto
  have sql: "nx * nx \<le> int (length msk)" using sq assms(3) by linarith
  have lo: "0 \<le> (ny - 1) * nx" using assms by simp
  have e2: "forM (ival ((ny - 1) * nx) (nx * nx)) (border_step msk) [] = Some []"
    by (rule border_loop_nonzero [OF lo sql assms(4)])
  have e3: "column_loop msk nx (ny * nx) nx [] = Some []"
    using assms by (intro column_loop_nonzero) auto
  have e4: "column_loop msk nx (ny * nx) (nx - 1) [] = Some []"
    using assms by (intro column_loop_nonzero) auto
  have e5: "forM (ival 1 (ny - 1)) (\<lambda>y. forM (ival 1 (nx - 1)) (interior_step nx msk y)) [] = Some []"
  proof (rule forM_unchanged)
    fix y assume "y \<in> set (ival 1 (ny - 1))"
    then have y: "1 \<le> y" "y < ny - 1" by (auto simp: ival_def)
    show "forM (ival 1 (nx - 1)) (interior_step nx msk y) [] = Some []"
    proof (rule forM_unchanged)
      fix x assume "x \<in> set (ival 1 (nx - 1))"
      then have x: "1 \<le> x" "x < nx - 1" by (auto simp: ival_def)
      show "interior_step nx msk y x [] = Some []"
        using y x assms by (intro interior_step_nonzero) auto
    qed
  qed
  show ?thesis
    by (simp add: find_edges_def e1 e2 e3 e4 e5)
qed

lemma zero_interior_nonzero:
  assumes "npix \<le> int (length msk)" "\<forall>m \<in> set msk. m \<noteq> 0"
  shows "forM (ival 0 npix) (zero_interior msk) dists = Some dists"
proof (rule forM_unchanged)
  fix i assume "i \<in> set (ival 0 npix)"
  then have "0 \<le> i" "i < npix" by (auto simp: ival_def)
  with assms show "zero_interior msk i dists = Some dists"
    by (simp add: zero_interior_def is_zero_def rd_def)
qed

text \<open>
  Claim C4, amended. On a mask without a zero, with at least as many rows as columns,
  \<^verbatim>\<open>find_edges\<close> returns the empty sequence and \<^verbatim>\<open>distance_transform\<close>
  returns with \<open>dists\<close> as it was passed.
\<close>

theorem all_ones_mask:
  assumes "1 \<le> nx" "nx \<le> ny" "ny * nx \<le> int (length msk)" "\<forall>m \<in> set msk. m \<noteq> 0"
    and "2 * (ny * nx) \<le> int (length posmap)"
  shows "find_edges ny nx msk = Some [] \<and> distance_transform ny nx msk posmap dists = Some dists"
  using assms
  by (simp add: find_edges_all_nonzero distance_transform_def distance_from_points_no_points
      zero_interior_nonzero)

theorem all_ones_mask_witness:
  "find_edges 2 2 [1, 1, 1, 1] = Some [] \<and>
   distance_transform 2 2 [1, 1, 1, 1] [0, 0, 1, 1, 0, 1, 0, 1] [5, 6, 7, 8] = Some [5, 6, 7, 8]"
  using all_ones_mask [of 2 2 "[1, 1, 1, 1]" "[0, 0, 1, 1, 0, 1, 0, 1]" "[5, 6, 7, 8]"]
  by simp

subsection \<open>The separable scan\<close>

lemma point_step_separable_eq: "point_step_separable = point_step"
  by (intro ext) (simp add: point_step_separable_def point_step_def)

lemma forM_grid:
  "forM (map int [0..<ny * nx]) F s =
   forM (map int [0..<ny]) (\<lambda>y. forM (map int [0..<nx]) (\<lambda>x. F (y * int nx + x))) s"
proof (induction ny)
  case 0
  show ?case by simp
next
  case (Suc ny)
  have "[0..<Suc ny * nx] = [0..<ny * nx] @ [ny * nx..<ny * nx + nx]"
    using upt_add_eq_append [of 0 "ny * nx" nx] by (simp add: add.commute)
  moreover have "[ny * nx..<ny * nx + nx] = map (\<lambda>x. x + ny * nx) [0..<nx]"
    by (simp add: map_add_upt add.commute)
  ultimately have "map int [0..<Suc ny * nx] =
      map int [0..<ny * nx] @ map (\<lambda>x. int ny * int nx + x) (map int [0..<nx])"
    by (simp add: o_def add.commute)
  then have "forM (map int [0..<Suc ny * nx]) F s =
      (case forM (map int [0..<ny]) (\<lambda>y. forM (map int [0..<nx]) (\<lambda>x. F (y * int nx + x))) s of
         None \<Rightarrow> None
       | Some s' \<Rightarrow> forM (map int [0..<nx]) (\<lambda>x. F (int ny * int nx + x)) s')"
    by (simp only: forM_append Suc forM_map [of "\<lambda>x. int ny * int nx + x"])
  also have "\<dots> = forM (map int [0..<Suc ny])
      (\<lambda>y. forM (map int [0..<nx]) (\<lambda>x. F (y * int nx + x))) s"
    by (simp add: forM_append split: option.splits)
  finally show ?case .
qed

lemma grid_index_less: "y < ny \<Longrightarrow> x < nx \<Longrightarrow> y * nx + x < ny * (nx::nat)"
proof -
  assume a: "y < ny" "x < nx"
  then have "y * nx + x < Suc y * nx" by simp
  also have "\<dots> \<le> ny * nx" using a by (intro mult_le_mono1) simp
  finally show ?thesis .
qed

lemma separable_posmap_dec:
  "y < ny \<Longrightarrow> x < nx \<Longrightarrow> separable_posmap ny nx ypos xpos ! (y * nx + x) = ypos ! y"
  using grid_index_less [of y ny x nx]
  by (simp add: separable_posmap_def nth_append)

lemma separable_posmap_ra:
  "y < ny \<Longrightarrow> x < nx \<Longrightarrow>
   separable_posmap ny nx ypos xpos ! (y * nx + x + ny * nx) = xpos ! x"
  using grid_index_less [of y ny x nx]
  by (simp add: separable_posmap_def nth_append)

lemma length_separable_posmap: "length (separable_posmap ny nx ypos xpos) = 2 * (ny * nx)"
  by (simp add: separable_posmap_def)

lemma column_step_pixel_step:
  assumes "y < ny" "x < nx" "nx \<le> length xpos"
  shows "column_step (int nx) xpos npoint points ec es (cos (ypos ! y)) (sin (ypos ! y)) (int y) (int x) g =
         pixel_step (int ny * int nx) (separable_posmap ny nx ypos xpos) npoint points ec es
           (int y * int nx + int x) g"
proof -
  have lt: "y * nx + x < ny * nx" using assms grid_index_less by simp
  have i: "int y * int nx + int x = int (y * nx + x)" by simp
  have n: "int ny * int nx = int (ny * nx)" by simp
  have l1: "y * nx + x < length (separable_posmap ny nx ypos xpos)"
    unfolding length_separable_posmap using lt by linarith
  have l2: "y * nx + x + ny * nx < length (separable_posmap ny nx ypos xpos)"
    unfolding length_separable_posmap using lt by linarith
  have r1: "rd (separable_posmap ny nx ypos xpos) (int (y * nx + x)) = Some (ypos ! y)"
    unfolding rd_int using l1 assms by (simp add: separable_posmap_dec)
  have "rd (separable_posmap ny nx ypos xpos) (int (y * nx + x + ny * nx)) = Some (xpos ! x)"
    unfolding rd_int using l2 assms by (simp add: separable_posmap_ra)
  then have r2: "rd (separable_posmap ny nx ypos xpos) (int (y * nx + x) + int (ny * nx)) = Some (xpos ! x)"
    by (simp only: of_nat_add)
  have r3: "rd xpos (int x) = Some (xpos ! x)"
    using assms by (simp add: rd_int)
  show ?thesis
    unfolding column_step_def pixel_step_def i n r1 r2 r3
    by (simp add: point_step_separable_eq)
qed

text \<open>
  Claim C5. On axis arrays that hold the \<open>ny\<close> rows and \<open>nx\<close> columns,
  \<^verbatim>\<open>distance_from_points_separable\<close> gives the result of
  \<^verbatim>\<open>distance_from_points\<close> on \<open>ny * nx\<close> pixels and the position map of the
  separable grid: the same \<open>dists\<close>, the same \<open>areas\<close>, and a fault in one is a
  fault in the other.
\<close>

theorem separable_refines_flat:
  assumes "0 \<le> ny" "0 \<le> nx" "ny \<le> int (length ypos)" "nx \<le> int (length xpos)"
  shows "distance_from_points_separable ny nx ypos xpos npoint points dists areas =
         distance_from_points (ny * nx) (separable_posmap (nat ny) (nat nx) ypos xpos)
           npoint points dists areas"
proof (cases "trig_table points npoint")
  case None
  then show ?thesis
    by (simp add: distance_from_points_separable_def distance_from_points_def)
next
  case (Some t)
  obtain ec es where t: "t = (ec, es)" by (cases t)
  define my where "my = nat ny"
  define mx where "mx = nat nx"
  have dims: "ny = int my" "nx = int mx" "my \<le> length ypos" "mx \<le> length xpos"
    using assms by (simp_all add: my_def mx_def)
  have rows: "forM (map int [0..<my]) (row_step (int mx) ypos xpos npoint points ec es) g =
        forM (map int [0..<my])
          (\<lambda>y. forM (map int [0..<mx])
             (\<lambda>x. pixel_step (int my * int mx) (separable_posmap my mx ypos xpos) npoint points ec es
                     (y * int mx + x))) g" for g
  proof (rule forM_cong)
    fix yi g' assume "yi \<in> set (map int [0..<my])"
    then obtain y where y: "yi = int y" "y < my" by auto
    have ry: "rd ypos (int y) = Some (ypos ! y)"
      using y dims by (simp add: rd_int)
    have "forM (map int [0..<mx])
            (column_step (int mx) xpos npoint points ec es (cos (ypos ! y)) (sin (ypos ! y)) (int y)) g' =
          forM (map int [0..<mx])
            (\<lambda>x. pixel_step (int my * int mx) (separable_posmap my mx ypos xpos) npoint points ec es
                     (int y * int mx + x)) g'"
    proof (rule forM_cong)
      fix xi g'' assume "xi \<in> set (map int [0..<mx])"
      then obtain x where x: "xi = int x" "x < mx" by auto
      show "column_step (int mx) xpos npoint points ec es (cos (ypos ! y)) (sin (ypos ! y)) (int y) xi g'' =
            pixel_step (int my * int mx) (separable_posmap my mx ypos xpos) npoint points ec es
              (int y * int mx + xi) g''"
        unfolding x(1) using y(2) x(2) dims(4) by (rule column_step_pixel_step)
    qed
    then show "row_step (int mx) ypos xpos npoint points ec es yi g' =
          forM (map int [0..<mx])
             (\<lambda>x. pixel_step (int my * int mx) (separable_posmap my mx ypos xpos) npoint points ec es
                     (yi * int mx + x)) g'"
      by (simp add: row_step_def y(1) ry ival_0)
  qed
  have "ival 0 (int my * int mx) = map int [0..<my * mx]"
    by (simp add: ival_0 nat_mult_distrib)
  then show ?thesis
    unfolding distance_from_points_separable_def distance_from_points_def Some t dims(1,2)
    by (simp add: ival_0 rows forM_grid [symmetric])
qed

theorem separable_refines_flat_witness:
  "distance_from_points_separable 2 2 [0, 1] [0, 2] 1 [1, 2] [9, 9, 9, 9] (Some [7, 7, 7, 7]) =
   distance_from_points (2 * 2) (separable_posmap (nat 2) (nat 2) [0, 1] [0, 2])
     1 [1, 2] [9, 9, 9, 9] (Some [7, 7, 7, 7])"
  using separable_refines_flat [of 2 2 "[0, 1]" "[0, 2]" 1 "[1, 2]" "[9, 9, 9, 9]" "Some [7, 7, 7, 7]"]
  by simp

subsection \<open>Distances below the unvisited value\<close>

lemma atan2_0_1: "atan2 0 1 = 0"
  by (simp add: atan2_def)

lemma atan2_1_0: "atan2 1 0 = pi / 2"
  by (simp add: atan2_def)

lemma arctan_bounds: "- (pi / 2) < arctan v" "arctan v < pi / 2"
  using arctan_lbound arctan_ubound by auto

lemma atan2_le_pi: "atan2 y x \<le> pi"
proof -
  have "arctan (y / x) \<le> 0" if "x < 0" "0 \<le> y"
  proof -
    from that have "y / x \<le> 0" by (simp add: divide_nonneg_neg)
    then show ?thesis by (simp add: arctan_le_zero_iff)
  qed
  then show ?thesis
    using arctan_bounds [of "y / x"] pi_gt_zero
    by (auto simp: atan2_def)
qed

lemma atan2_nonneg: "0 \<le> y \<Longrightarrow> 0 \<le> atan2 y x"
proof -
  assume y: "0 \<le> y"
  have "0 \<le> arctan (y / x)" if "0 < x"
    using that y by (simp add: zero_le_arctan_iff)
  then show ?thesis
    using y arctan_bounds [of "y / x"] pi_gt_zero
    by (auto simp: atan2_def)
qed

lemma pi_below_unvisited: "pi < unvisited"
proof -
  have "pi < 4" using pi_less_4 by simp
  moreover have "(4::real) \<le> 10 ^ 300" by simp
  ultimately show ?thesis by (simp add: unvisited_def)
qed

lemma dist_vincenty_helper_le_pi:
  "dist_vincenty_helper ra1 cos_dec1 sin_dec1 ra2 cos_dec2 sin_dec2 \<le> pi"
  by (simp add: dist_vincenty_helper_def Let_def atan2_le_pi)

lemma calc_dist_below_unvisited:
  assumes "calc_dist E ipoint y x = Some v"
  shows "v < unvisited"
proof -
  from assms obtain a b c d e f where "v = dist_vincenty_helper a b c d e f"
    by (auto simp: calc_dist_def split: bind_splits)
  then have "v \<le> pi" by (simp add: dist_vincenty_helper_le_pi)
  then show ?thesis using pi_below_unvisited by simp
qed

subsection \<open>The coupling of the two grids\<close>

lemma forM_preserves:
  "forM xs f s = Some s' \<Longrightarrow> P s \<Longrightarrow>
   (\<And>i s s'. i \<in> set xs \<Longrightarrow> P s \<Longrightarrow> f i s = Some s' \<Longrightarrow> P s') \<Longrightarrow> P s'"
proof (induction xs arbitrary: s)
  case Nil
  then show ?case by simp
next
  case (Cons a xs)
  from Cons.prems(1) obtain t where t: "f a s = Some t" "forM xs f t = Some s'"
    by (auto split: option.splits)
  have "P t" using Cons.prems(2) t(1) by (intro Cons.prems(3) [of a s t]) auto
  then show ?case
    by (rule Cons.IH [OF t(2)]) (use Cons.prems(3) in auto)
qed

lemma fill_loop:
  "forM (map int [0..<n]) fill_step g = Some (d, m) \<Longrightarrow>
   \<forall>i < n. i < length d \<and> i < length m \<and> d ! i = unvisited \<and> m ! i = - 1"
proof (induction n arbitrary: d m)
  case 0
  then show ?case by simp
next
  case (Suc n)
  from Suc.prems obtain d1 m1 where
    a: "forM (map int [0..<n]) fill_step g = Some (d1, m1)" and
    b: "fill_step (int n) (d1, m1) = Some (d, m)"
    by (auto simp: forM_append split: option.splits)
  from b have c: "n < length d1" "n < length m1" "d = d1[n := unvisited]" "m = m1[n := - 1]"
    by (auto simp: fill_step_def wr_int split: if_splits bind_splits)
  show ?case
  proof (intro allI impI)
    fix i assume "i < Suc n"
    then show "i < length d \<and> i < length m \<and> d ! i = unvisited \<and> m ! i = - 1"
      using Suc.IH [OF a] c by (cases "i = n") auto
  qed
qed

lemma initial_settled:
  assumes "initial ny nx dists domains = Some st" "e_ny E = ny" "e_nx E = nx"
  shows "settled E st"
proof -
  from assms(1) obtain d m where
    f: "forM (map int [0..<nat (ny * nx)]) fill_step (dists, domains) = Some (d, m)" and
    st: "st = \<lparr>s_dists = d, s_domains = m, s_curr = [], s_next = []\<rparr>"
    by (auto simp: initial_def ival_0)
  show ?thesis
    using fill_loop [OF f] assms(2,3) by (simp add: settled_def coupled_def st)
qed

lemma update_settled:
  assumes u: "update E y x v i st = Some st'"
    and v: "v \<noteq> unvisited" and i: "0 \<le> i" "i < e_npoint E"
    and s: "settled E st"
  shows "settled E st'"
proof -
  define w where "w = nat (y * e_nx E + x)"
  from u have b: "0 \<le> y * e_nx E + x" "w < length (s_dists st)" "w < length (s_domains st)"
    and st': "st' = st\<lparr>s_dists := (s_dists st)[w := v], s_domains := (s_domains st)[w := i],
                     s_next := s_next st @ [(y, x)]\<rparr>"
    by (auto simp: update_def wr_def w_def split: if_splits bind_splits)
  have c: "coupled (e_ny E * e_nx E) (e_npoint E) st'"
    unfolding coupled_def
  proof (intro ballI)
    fix j assume j: "j \<in> {0..<nat (e_ny E * e_nx E)}"
    with s have old: "j < length (s_dists st)" "j < length (s_domains st)"
      "(s_domains st ! j = - 1) = (s_dists st ! j = unvisited)"
      "s_domains st ! j \<noteq> - 1 \<longrightarrow> 0 \<le> s_domains st ! j \<and> s_domains st ! j < e_npoint E"
      by (auto simp: settled_def coupled_def)
    show "j < length (s_dists st') \<and> j < length (s_domains st') \<and>
        (s_domains st' ! j = - 1) = (s_dists st' ! j = unvisited) \<and>
        (s_domains st' ! j \<noteq> - 1 \<longrightarrow> 0 \<le> s_domains st' ! j \<and> s_domains st' ! j < e_npoint E)"
      using old b v i by (cases "j = w") (auto simp: st')
  qed
  have o: "owned E st' p" if "p = (y, x) \<or> owned E st p" for p
  proof (cases "fst p * e_nx E + snd p = y * e_nx E + x")
    case True
    then have "rd (s_domains st') (fst p * e_nx E + snd p) = Some i"
      using b by (simp add: rd_def st' w_def)
    then show ?thesis using i by (simp add: owned_def)
  next
    case False
    then have "rd (s_domains st') (fst p * e_nx E + snd p) =
               rd (s_domains st) (fst p * e_nx E + snd p)"
      using b by (simp add: rd_def st' w_def nat_eq_iff)
    moreover from False that have "owned E st p" by auto
    ultimately show ?thesis by (simp add: owned_def)
  qed
  show ?thesis
    unfolding settled_def
  proof (intro conjI ballI)
    show "coupled (e_ny E * e_nx E) (e_npoint E) st'" by (rule c)
  next
    fix p assume "p \<in> set (s_curr st') \<union> set (s_next st')"
    then have "p = (y, x) \<or> p \<in> set (s_curr st) \<union> set (s_next st)"
      by (auto simp: st')
    with s show "owned E st' p" by (intro o) (auto simp: settled_def)
  qed
qed

lemma update_curr: "update E y x v i st = Some st' \<Longrightarrow> s_curr st' = s_curr st"
  by (auto simp: update_def split: bind_splits)

lemma seed_settled:
  assumes "seed E point_y point_x i st = Some st'" "0 \<le> i" "i < e_npoint E" "settled E st"
  shows "settled E st'"
proof -
  from assms(1) obtain y x v where
    c: "calc_dist E i y x = Some v" and u: "update E y x v i st = Some st'"
    by (auto simp: seed_def split: bind_splits)
  from c have "v \<noteq> unvisited" using calc_dist_below_unvisited by fastforce
  with assms show ?thesis by (intro update_settled [OF u]) auto
qed

lemma relax_settled:
  assumes "relax E ipoint y x off st = Some st'" "0 \<le> ipoint" "ipoint < e_npoint E" "settled E st"
  shows "settled E st' \<and> s_curr st' = s_curr st"
proof (cases "st' = st")
  case True
  with assms show ?thesis by simp
next
  case False
  with assms(1) obtain y2 x2 v where
    c: "calc_dist E ipoint y2 x2 = Some v" and u: "update E y2 x2 v ipoint st = Some st'"
    by (auto simp: relax_def Let_def split: bind_splits if_splits)
  from c have "v \<noteq> unvisited" using calc_dist_below_unvisited by fastforce
  with u assms show ?thesis using update_curr [OF u] by (intro conjI update_settled [OF u]) auto
qed

lemma visit_settled:
  assumes v: "visit E p st = Some st'" and o: "owned E st p" and s: "settled E st"
  shows "settled E st' \<and> s_curr st' = s_curr st"
proof -
  obtain y x where p: "p = (y, x)" by (cases p)
  from v o obtain ipoint where
    ip: "0 \<le> ipoint" "ipoint < e_npoint E" and
    f: "forM offsets (relax E ipoint y x) st = Some st'"
    by (auto simp: visit_def owned_def p split: bind_splits option.splits)
  show ?thesis
    by (rule forM_preserves [OF f, where P = "\<lambda>t. settled E t \<and> s_curr t = s_curr st"])
       (use s ip relax_settled in \<open>auto\<close>)
qed

lemma pass_settled:
  assumes "pass E st = Some st'" "settled E st"
  shows "settled E st'"
proof -
  have "settled E st' \<and> s_curr st' = s_curr st"
  proof (rule forM_preserves [OF assms(1) [unfolded pass_def],
        where P = "\<lambda>t. settled E t \<and> s_curr t = s_curr st"])
    show "settled E st \<and> s_curr st = s_curr st" using assms by simp
  next
    fix p t t'
    assume "p \<in> set (s_curr st)" "settled E t \<and> s_curr t = s_curr st" "visit E p t = Some t'"
    then show "settled E t' \<and> s_curr t' = s_curr st"
      using visit_settled [of E p t t'] by (auto simp: settled_def)
  qed
  then show ?thesis by simp
qed

lemma swap_settled: "settled E st \<Longrightarrow> settled E (swap_buffers st)"
  by (simp add: settled_def swap_buffers_def coupled_def owned_def)

lemma propagate_settled:
  "settled E st \<Longrightarrow>
   (case propagate fuel E st of Finished st' \<Rightarrow> settled E st' | Fault \<Rightarrow> True
    | OutOfFuel st' \<Rightarrow> settled E st')"
proof (induction fuel arbitrary: st)
  case 0
  then show ?case by simp
next
  case (Suc fuel)
  show ?case
  proof (cases "s_curr st = []")
    case True
    with Suc.prems show ?thesis by simp
  next
    case False
    show ?thesis
    proof (cases "pass E st")
      case None
      with False show ?thesis by simp
    next
      case (Some t)
      have "settled E (swap_buffers t)"
        by (rule swap_settled [OF pass_settled [OF Some Suc.prems]])
      then have "case propagate fuel E (swap_buffers t) of Finished st' \<Rightarrow> settled E st'
          | Fault \<Rightarrow> True | OutOfFuel st' \<Rightarrow> settled E st'"
        by (rule Suc.IH)
      with False Some show ?thesis by simp
    qed
  qed
qed

lemma precompute_fields:
  assumes "precompute ny nx ypos xpos npoint point_pos = Some E"
  shows "e_ny E = ny \<and> e_nx E = nx \<and> e_npoint E = npoint"
proof (cases "trig_table point_pos npoint")
  case None
  with assms show ?thesis by (simp add: precompute_def)
next
  case a: (Some a)
  show ?thesis
  proof (cases "trig_table ypos ny")
    case None
    with assms a show ?thesis by (cases a) (simp add: precompute_def)
  next
    case b: (Some b)
    obtain pc ps where pa: "a = (pc, ps)" by (cases a)
    obtain yc ys where pb: "b = (yc, ys)" by (cases b)
    from assms have "E = \<lparr>e_ny = ny, e_nx = nx, e_xpos = xpos, e_npoint = npoint,
        e_point_pos = point_pos, e_point_cos_dec = pc, e_point_sin_dec = ps,
        e_pix_cos_dec = yc, e_pix_sin_dec = ys\<rparr>"
      by (simp add: precompute_def a b pa pb)
    then show ?thesis by simp
  qed
qed

text \<open>
  Claim C9. Whenever \<^verbatim>\<open>distance_from_points_treerings_separable\<close> is at the head of
  its \<^verbatim>\<open>while\<close> loop, after any number of passes, or has returned, the grids are
  coupled on every pixel: \<open>domains[i] = -1\<close> exactly when \<open>dists[i]\<close> is the
  unvisited value, and every other \<open>domains[i]\<close> is a point index. The lemmas above
  give the same after each single \<^verbatim>\<open>update\<close>.
\<close>

theorem grids_stay_coupled:
  assumes "distance_from_points_treerings_separable fuel ny nx ypos xpos npoint point_pos
             point_y point_x dists domains = Finished st \<or>
           distance_from_points_treerings_separable fuel ny nx ypos xpos npoint point_pos
             point_y point_x dists domains = OutOfFuel st"
  shows "coupled (ny * nx) npoint st"
proof -
  from assms obtain st0 where i: "initial ny nx dists domains = Some st0"
    by (cases "initial ny nx dists domains")
       (simp_all add: distance_from_points_treerings_separable_def)
  from assms i obtain E where p: "precompute ny nx ypos xpos npoint point_pos = Some E"
    by (cases "precompute ny nx ypos xpos npoint point_pos")
       (simp_all add: distance_from_points_treerings_separable_def)
  from assms i p obtain st1 where s: "forM (ival 0 npoint) (seed E point_y point_x) st0 = Some st1"
    by (cases "forM (ival 0 npoint) (seed E point_y point_x) st0")
       (simp_all add: distance_from_points_treerings_separable_def)
  from assms have r: "propagate fuel E (swap_buffers st1) = Finished st \<or>
        propagate fuel E (swap_buffers st1) = OutOfFuel st"
    by (simp add: distance_from_points_treerings_separable_def i p s)
  note f = precompute_fields [OF p]
  have "settled E st0" using i f by (intro initial_settled) auto
  then have "settled E st1"
  proof (rule forM_preserves [OF s])
    fix j t t' assume "j \<in> set (ival 0 npoint)" "settled E t" "seed E point_y point_x j t = Some t'"
    then show "settled E t'"
      using f by (intro seed_settled [of E point_y point_x j t t']) (auto simp: ival_0)
  qed
  then have "settled E (swap_buffers st1)" by (rule swap_settled)
  from propagate_settled [OF this, of fuel] r have "settled E st"
    by (elim disjE) simp_all
  then show ?thesis using f by (simp add: settled_def)
qed

theorem grids_stay_coupled_witness:
  "distance_from_points_treerings_separable 1 1 1 [0] [0] 1 [0, 0] [0] [0] [7] [7] =
     Finished \<lparr>s_dists = [0], s_domains = [0], s_curr = [], s_next = []\<rparr> \<and>
   coupled (1 * 1) 1 \<lparr>s_dists = [0], s_domains = [0], s_curr = [], s_next = []\<rparr>"
proof -
  let ?E = "\<lparr>e_ny = 1, e_nx = 1, e_xpos = [0], e_npoint = 1, e_point_pos = [0, 0],
            e_point_cos_dec = [1], e_point_sin_dec = [0],
            e_pix_cos_dec = [1], e_pix_sin_dec = [0]\<rparr>"
  have c: "calc_dist ?E 0 0 0 = Some 0"
    by (simp add: calc_dist_def rd_def dist_vincenty_helper_def atan2_0_1)
  have p: "precompute 1 1 [0] [0] 1 [0, 0] = Some ?E"
    by (simp add: precompute_def trig_table_def ival_def rd_def)
  have i: "initial 1 1 [7] [7] =
      Some \<lparr>s_dists = [unvisited], s_domains = [- 1], s_curr = [], s_next = []\<rparr>"
    by (simp add: initial_def ival_def fill_step_def wr_def)
  have s: "forM (ival 0 1) (seed ?E [0] [0])
      \<lparr>s_dists = [unvisited], s_domains = [- 1], s_curr = [], s_next = []\<rparr> =
      Some \<lparr>s_dists = [0], s_domains = [0], s_curr = [], s_next = [(0, 0)]\<rparr>"
    by (simp add: ival_def seed_def rd_def wr_def update_def c)
  have q: "pass ?E \<lparr>s_dists = [0], s_domains = [0], s_curr = [(0, 0)], s_next = []\<rparr> =
      Some \<lparr>s_dists = [0], s_domains = [0], s_curr = [(0, 0)], s_next = []\<rparr>"
    by (simp add: pass_def visit_def offsets_def relax_def wrap_def rd_def c)
  have r: "distance_from_points_treerings_separable 1 1 1 [0] [0] 1 [0, 0] [0] [0] [7] [7] =
     Finished \<lparr>s_dists = [0], s_domains = [0], s_curr = [], s_next = []\<rparr>"
    by (simp add: distance_from_points_treerings_separable_def i p s q swap_buffers_def)
  with grids_stay_coupled [of 1 1 1 "[0]" "[0]" 1 "[0, 0]" "[0]" "[0]" "[7]" "[7]"
      "\<lparr>s_dists = [0], s_domains = [0], s_curr = [], s_next = []\<rparr>"]
  show ?thesis by simp
qed

subsection \<open>The first pass on a grid of five rows and four columns\<close>

lemma fill_loop_total:
  "n \<le> length d \<Longrightarrow> n \<le> length m \<Longrightarrow>
   \<exists>d' m'. forM (map int [0..<n]) fill_step (d, m) = Some (d', m') \<and>
     length d' = length d \<and> length m' = length m"
proof (induction n)
  case 0
  then show ?case by simp
next
  case (Suc n)
  then obtain d' m' where
    a: "forM (map int [0..<n]) fill_step (d, m) = Some (d', m')"
    "length d' = length d" "length m' = length m"
    by auto
  with Suc.prems have "fill_step (int n) (d', m') = Some (d'[n := unvisited], m'[n := - 1])"
    by (simp add: fill_step_def wr_int)
  with a show ?case
    by (simp add: forM_append)
qed

lemma initial_total:
  assumes "ny * nx \<le> int (length dists)" "ny * nx \<le> int (length domains)"
  shows "\<exists>d m. initial ny nx dists domains =
           Some \<lparr>s_dists = d, s_domains = m, s_curr = [], s_next = []\<rparr> \<and>
           length d = length dists \<and> length m = length domains"
proof -
  have "nat (ny * nx) \<le> length dists" "nat (ny * nx) \<le> length domains"
    using assms by simp_all
  from fill_loop_total [OF this] show ?thesis
    by (auto simp: initial_def ival_0)
qed

text \<open>
  Claim C8 says that with four columns a point seeded at \<open>(y, 0)\<close> reaches
  \<open>(y, 3)\<close> in the first pass. With five rows and the seed in row \<open>4\<close>, the first
  pass compares the distance of \<open>(4, 3)\<close> with the cell \<open>4 * 5 + 3 = 23\<close> of a
  grid of \<open>20\<close> cells: an access outside \<open>dists\<close>.
\<close>

theorem wrap_hop_reads_outside:
  assumes "length ypos = 5" "length xpos = 4" "length point_pos = 2"
    and "length dists = 20" "length domains = 20"
  shows "distance_from_points_treerings_separable (Suc fuel) 5 4 ypos xpos 1 point_pos [4] [0]
           dists domains = Fault"
proof -
  from assms obtain d m where
    i: "initial 5 4 dists domains = Some \<lparr>s_dists = d, s_domains = m, s_curr = [], s_next = []\<rparr>"
    and l: "length d = 20" "length m = 20"
    using initial_total [of 5 4 dists domains] by auto
  define E where "E = \<lparr>e_ny = 5, e_nx = 4, e_xpos = xpos, e_npoint = 1, e_point_pos = point_pos,
          e_point_cos_dec = map cos (take 1 point_pos), e_point_sin_dec = map sin (take 1 point_pos),
          e_pix_cos_dec = map cos (take 5 ypos), e_pix_sin_dec = map sin (take 5 ypos)\<rparr>"
  have p: "precompute 5 4 ypos xpos 1 point_pos = Some E"
    using assms trig_table_take [of 1 point_pos] trig_table_take [of 5 ypos]
    by (simp add: precompute_def E_def)
  obtain v where c0: "calc_dist E 0 4 0 = Some v"
    using assms by (simp add: calc_dist_def E_def rd_def)
  obtain v' where c3: "calc_dist E 0 4 3 = Some v'"
    using assms by (simp add: calc_dist_def E_def rd_def)
  have Ef: "e_ny E = 5" "e_nx E = 4" by (simp_all add: E_def)
  have s: "forM (ival 0 1) (seed E [4] [0])
             \<lparr>s_dists = d, s_domains = m, s_curr = [], s_next = []\<rparr> =
           Some \<lparr>s_dists = d[16 := v], s_domains = m[16 := 0], s_curr = [], s_next = [(4, 0)]\<rparr>"
    using l by (simp add: ival_def seed_def rd_def c0 update_def wr_def Ef)
  have "relax E 0 4 0 (0, - 1)
          \<lparr>s_dists = d[16 := v], s_domains = m[16 := 0], s_curr = [(4, 0)], s_next = []\<rparr> = None"
    using l by (simp add: relax_def wrap_def rd_def c3 Ef)
  then have "pass E \<lparr>s_dists = d[16 := v], s_domains = m[16 := 0], s_curr = [(4, 0)], s_next = []\<rparr>
      = None"
    using l by (simp add: pass_def visit_def offsets_def rd_def Ef)
  then show ?thesis
    by (simp add: distance_from_points_treerings_separable_def i p s swap_buffers_def)
qed

theorem wrap_hop_reads_outside_witness:
  "distance_from_points_treerings_separable (Suc 0) 5 4 [0, 1, 2, 3, 4] [0, 1, 2, 3] 1 [4, 0] [4] [0]
     [0, 0, 0, 0, 0, 0, 0, 0, 0, 0, 0, 0, 0, 0, 0, 0, 0, 0, 0, 0]
     [0, 0, 0, 0, 0, 0, 0, 0, 0, 0, 0, 0, 0, 0, 0, 0, 0, 0, 0, 0] = Fault"
  using wrap_hop_reads_outside [of "[0, 1, 2, 3, 4]" "[0, 1, 2, 3]" "[4, 0]"
     "[0, 0, 0, 0, 0, 0, 0, 0, 0, 0, 0, 0, 0, 0, 0, 0, 0, 0, 0, 0]"
     "[0, 0, 0, 0, 0, 0, 0, 0, 0, 0, 0, 0, 0, 0, 0, 0, 0, 0, 0, 0]" 0]
  by simp

subsection \<open>A grid on which the propagation does not end\<close>

lemma precompute_2x3: "precompute 2 3 [pi / 2, 0] [- (pi / 4), 0, pi / 4] 1 [0, 0] = Some env_2x3"
  by (simp add: precompute_def trig_table_def ival_def rd_def env_2x3_def eval_nat_numeral)


lemma sqrt_half: "sqrt (1 / 2) = sqrt 2 / 2"
  by (rule real_sqrt_unique) (simp_all add: power2_eq_square)

lemma atan2_diag: "atan2 (sqrt 2 / 2) (sqrt 2 / 2) = pi / 4"
  by (simp add: atan2_def arctan_one)

lemma dist_2x3_11: "calc_dist env_2x3 0 1 1 = Some 0"
  by (simp add: calc_dist_def env_2x3_def rd_def dist_vincenty_helper_def atan2_0_1)

lemma dist_2x3_10: "calc_dist env_2x3 0 1 0 = Some (pi / 4)"
proof -
  have "sqrt (sqrt 2 * sqrt 2 / 4) = sqrt 2 / 2"
    using sqrt_half by simp
  then show ?thesis
    by (simp add: calc_dist_def env_2x3_def rd_def dist_vincenty_helper_def cos_45 sin_45 atan2_diag)
qed

lemma dist_2x3_12: "calc_dist env_2x3 0 1 2 = Some (pi / 4)"
proof -
  have "sqrt (sqrt 2 * sqrt 2 / 4) = sqrt 2 / 2"
    using sqrt_half by simp
  then show ?thesis
    by (simp add: calc_dist_def env_2x3_def rd_def dist_vincenty_helper_def cos_45 sin_45 atan2_diag)
qed

lemma dist_2x3_0x: "x \<in> {0, 1, 2} \<Longrightarrow> calc_dist env_2x3 0 0 x = Some (pi / 2)"
  by (auto simp add: calc_dist_def env_2x3_def rd_def dist_vincenty_helper_def cos_45 sin_45 atan2_1_0
      simp flip: power2_eq_square)


lemma env_2x3_size:
  "e_ny env_2x3 = 2" "e_nx env_2x3 = 3" by (simp_all add: env_2x3_def)

lemma dist_2x3_0: "calc_dist env_2x3 0 0 0 = Some (pi / 2)" "calc_dist env_2x3 0 0 1 = Some (pi / 2)"
  "calc_dist env_2x3 0 0 2 = Some (pi / 2)"
  by (simp_all add: dist_2x3_0x)

lemma below_unvisited: "0 < unvisited" "pi < unvisited * 4" "pi < unvisited * 2"
  using pi_below_unvisited pi_gt_zero by linarith+

lemmas run_simps = visit_def relax_def update_def offsets_def wrap_def rd_def wr_def env_2x3_size
  dist_2x3_0 dist_2x3_10 dist_2x3_11 dist_2x3_12 below_unvisited Let_def seed_def pass_def swap_buffers_def

lemma initial_2x3: "initial 2 3 [0, 0, 0, 0, 0, 0] [0, 0, 0, 0, 0, 0] =
   Some \<lparr>s_dists = [unvisited, unvisited, unvisited, unvisited, unvisited, unvisited],
         s_domains = [- 1, - 1, - 1, - 1, - 1, - 1], s_curr = [], s_next = []\<rparr>"
  by (simp add: initial_def ival_def fill_step_def wr_def eval_nat_numeral)

lemma seeded_2x3: "forM (ival 0 1) (seed env_2x3 [1] [1])
    \<lparr>s_dists = [unvisited, unvisited, unvisited, unvisited, unvisited, unvisited],
         s_domains = [- 1, - 1, - 1, - 1, - 1, - 1], s_curr = [], s_next = []\<rparr> =
   Some \<lparr>s_dists = [unvisited, unvisited, unvisited, unvisited, 0, unvisited],
         s_domains = [- 1, - 1, - 1, - 1, 0, - 1], s_curr = [], s_next = [(1, 1)]\<rparr>"
  by (simp add: ival_def run_simps)

lemma first_pass: "pass env_2x3 \<lparr>s_dists = [unvisited, unvisited, unvisited, unvisited, 0, unvisited],
         s_domains = [- 1, - 1, - 1, - 1, 0, - 1], s_curr = [(1, 1)], s_next = []\<rparr> =
   Some \<lparr>s_dists = [unvisited, pi / 2, unvisited, pi / 4, 0, unvisited],
         s_domains = [- 1, 0, - 1, 0, 0, - 1], s_curr = [(1, 1)], s_next = [(1, 0), (0, 1)]\<rparr>"
  by (simp add: run_simps)

lemma second_pass: "pass env_2x3 \<lparr>s_dists = [unvisited, pi / 2, unvisited, pi / 4, 0, unvisited],
         s_domains = [- 1, 0, - 1, 0, 0, - 1], s_curr = [(1, 0), (0, 1)], s_next = []\<rparr> =
   Some \<lparr>s_dists = [pi / 2, pi / 2, pi / 2, pi / 4, 0, unvisited],
         s_domains = [0, 0, 0, 0, 0, - 1], s_curr = [(1, 0), (0, 1)],
         s_next = [(1, 1), (0, 0), (0, 2), (1, 1), (1, 1)]\<rparr>"
  by (simp add: run_simps)

lemma third_pass: "pass env_2x3 \<lparr>s_dists = [pi / 2, pi / 2, pi / 2, pi / 4, 0, unvisited],
         s_domains = [0, 0, 0, 0, 0, - 1], s_curr = [(1, 1), (0, 0), (0, 2), (1, 1), (1, 1)],
         s_next = []\<rparr> =
   Some \<lparr>s_dists = [pi / 2, pi / 2, pi / 2, pi / 4, 0, unvisited],
         s_domains = [0, 0, 0, 0, 0, - 1], s_curr = [(1, 1), (0, 0), (0, 2), (1, 1), (1, 1)],
         s_next = [(1, 0), (1, 0), (1, 0), (1, 0), (1, 0)]\<rparr>"
  by (simp add: run_simps)

lemma visit_10: "visit env_2x3 (1, 0) \<lparr>s_dists = [pi / 2, pi / 2, pi / 2, pi / 4, 0, unvisited],
         s_domains = [0, 0, 0, 0, 0, - 1], s_curr = c, s_next = n\<rparr> =
   Some \<lparr>s_dists = [pi / 2, pi / 2, pi / 2, pi / 4, 0, unvisited],
         s_domains = [0, 0, 0, 0, 0, - 1], s_curr = c, s_next = n @ [(1, 1)]\<rparr>"
  by (simp add: run_simps)

lemma visit_11: "visit env_2x3 (1, 1) \<lparr>s_dists = [pi / 2, pi / 2, pi / 2, pi / 4, 0, unvisited],
         s_domains = [0, 0, 0, 0, 0, - 1], s_curr = c, s_next = n\<rparr> =
   Some \<lparr>s_dists = [pi / 2, pi / 2, pi / 2, pi / 4, 0, unvisited],
         s_domains = [0, 0, 0, 0, 0, - 1], s_curr = c, s_next = n @ [(1, 0)]\<rparr>"
  by (simp add: run_simps)


lemma visits_10: "forM (replicate k (1, 0)) (visit env_2x3)
     \<lparr>s_dists = [pi / 2, pi / 2, pi / 2, pi / 4, 0, unvisited],
         s_domains = [0, 0, 0, 0, 0, - 1], s_curr = c, s_next = n\<rparr> =
   Some \<lparr>s_dists = [pi / 2, pi / 2, pi / 2, pi / 4, 0, unvisited],
         s_domains = [0, 0, 0, 0, 0, - 1], s_curr = c, s_next = n @ replicate k (1, 1)\<rparr>"
  by (induction k arbitrary: n) (simp_all add: visit_10 replicate_app_Cons_same)

lemma visits_11: "forM (replicate k (1, 1)) (visit env_2x3)
     \<lparr>s_dists = [pi / 2, pi / 2, pi / 2, pi / 4, 0, unvisited],
         s_domains = [0, 0, 0, 0, 0, - 1], s_curr = c, s_next = n\<rparr> =
   Some \<lparr>s_dists = [pi / 2, pi / 2, pi / 2, pi / 4, 0, unvisited],
         s_domains = [0, 0, 0, 0, 0, - 1], s_curr = c, s_next = n @ replicate k (1, 0)\<rparr>"
  by (induction k arbitrary: n) (simp_all add: visit_11 replicate_app_Cons_same)

lemma ping_pong:
  "\<exists>st. propagate fuel env_2x3 \<lparr>s_dists = [pi / 2, pi / 2, pi / 2, pi / 4, 0, unvisited],
         s_domains = [0, 0, 0, 0, 0, - 1], s_curr = replicate (Suc k) (1, 0), s_next = []\<rparr>
       = OutOfFuel st"
  "\<exists>st. propagate fuel env_2x3 \<lparr>s_dists = [pi / 2, pi / 2, pi / 2, pi / 4, 0, unvisited],
         s_domains = [0, 0, 0, 0, 0, - 1], s_curr = replicate (Suc k) (1, 1), s_next = []\<rparr>
       = OutOfFuel st"
proof (induction fuel)
  case 0
  { case 1 show ?case by simp }
  { case 2 show ?case by simp }
next
  case (Suc fuel)
  { case 1
    have "pass env_2x3 \<lparr>s_dists = [pi / 2, pi / 2, pi / 2, pi / 4, 0, unvisited],
         s_domains = [0, 0, 0, 0, 0, - 1], s_curr = replicate (Suc k) (1, 0), s_next = []\<rparr> =
      Some \<lparr>s_dists = [pi / 2, pi / 2, pi / 2, pi / 4, 0, unvisited],
         s_domains = [0, 0, 0, 0, 0, - 1], s_curr = replicate (Suc k) (1, 0),
         s_next = replicate (Suc k) (1, 1)\<rparr>"
      using visits_10 [of "Suc k" "replicate (Suc k) (1, 0)" "[]"] by (simp add: pass_def)
    then show ?case using Suc(2) by (simp add: swap_buffers_def) }
  { case 2
    have "pass env_2x3 \<lparr>s_dists = [pi / 2, pi / 2, pi / 2, pi / 4, 0, unvisited],
         s_domains = [0, 0, 0, 0, 0, - 1], s_curr = replicate (Suc k) (1, 1), s_next = []\<rparr> =
      Some \<lparr>s_dists = [pi / 2, pi / 2, pi / 2, pi / 4, 0, unvisited],
         s_domains = [0, 0, 0, 0, 0, - 1], s_curr = replicate (Suc k) (1, 1),
         s_next = replicate (Suc k) (1, 0)\<rparr>"
      using visits_11 [of "Suc k" "replicate (Suc k) (1, 1)" "[]"] by (simp add: pass_def)
    then show ?case using Suc(1) by (simp add: swap_buffers_def) }
qed

text \<open>
  Claim C6 says that the propagation ends on every grid. On this grid of two rows and
  three columns the pixels \<open>(1, 0)\<close> and \<open>(1, 1)\<close> put each other into the next
  frontier in every pass, because the distance of a neighbour is compared with the cell
  \<open>y2 * ny + x2\<close> and written to the cell \<open>y2 * nx + x2\<close>: whatever the number of
  passes allowed, the loop has not ended.
\<close>

theorem treerings_runs_forever:
  "\<exists>st. distance_from_points_treerings_separable fuel 2 3 [pi / 2, 0] [- (pi / 4), 0, pi / 4]
      1 [0, 0] [1] [1] [0, 0, 0, 0, 0, 0] [0, 0, 0, 0, 0, 0] = OutOfFuel st"
proof -
  have five_entries: "[(1, 0), (1, 0), (1, 0), (1, 0), (1, 0)] = replicate (Suc 4) (1::int, 0::int)"
    by (simp add: eval_nat_numeral)
  consider "fuel = 0" | "fuel = 1" | "fuel = 2" | n where "fuel = Suc (Suc (Suc n))"
    by (metis One_nat_def Suc_1 not0_implies_Suc)
  then show ?thesis
  proof cases
    case 1
    then show ?thesis
      by (simp add: distance_from_points_treerings_separable_def initial_2x3 precompute_2x3 seeded_2x3 swap_buffers_def)
  next
    case 2
    then show ?thesis
      by (simp add: distance_from_points_treerings_separable_def initial_2x3 precompute_2x3 seeded_2x3 swap_buffers_def
          first_pass)
  next
    case 3
    then show ?thesis
      by (simp add: distance_from_points_treerings_separable_def initial_2x3 precompute_2x3 seeded_2x3 swap_buffers_def
          first_pass second_pass eval_nat_numeral)
  next
    case 4
    then show ?thesis
      using ping_pong(1) [of n 4]
      by (simp add: distance_from_points_treerings_separable_def initial_2x3 precompute_2x3 seeded_2x3 swap_buffers_def
          first_pass second_pass third_pass five_entries del: replicate_Suc)
  qed
qed

subsection \<open>Writes to the distance grid\<close>

text \<open>
  Claim C3, as stated, fails in the seeding loop, which writes without a comparison.
  On a grid of one pixel at \<open>(0, 0)\<close> with the points \<open>(0, 0)\<close> and
  \<open>(0, \<pi>/2)\<close>, both seeded on that pixel, the first seed stores the distance \<open>0\<close>
  and the second replaces it by \<open>\<pi>/2\<close>.
\<close>

theorem seeding_overwrites_nearer_point:
  "precompute 1 1 [0] [0] 2 [0, 0, 0, pi / 2] =
     Some \<lparr>e_ny = 1, e_nx = 1, e_xpos = [0], e_npoint = 2, e_point_pos = [0, 0, 0, pi / 2],
            e_point_cos_dec = [1, 1], e_point_sin_dec = [0, 0],
            e_pix_cos_dec = [1], e_pix_sin_dec = [0]\<rparr> \<and>
   initial 1 1 [7] [7] = Some \<lparr>s_dists = [unvisited], s_domains = [- 1], s_curr = [], s_next = []\<rparr> \<and>
   seed \<lparr>e_ny = 1, e_nx = 1, e_xpos = [0], e_npoint = 2, e_point_pos = [0, 0, 0, pi / 2],
            e_point_cos_dec = [1, 1], e_point_sin_dec = [0, 0],
            e_pix_cos_dec = [1], e_pix_sin_dec = [0]\<rparr> [0, 0] [0, 0] 0
        \<lparr>s_dists = [unvisited], s_domains = [- 1], s_curr = [], s_next = []\<rparr> =
     Some \<lparr>s_dists = [0], s_domains = [0], s_curr = [], s_next = [(0, 0)]\<rparr> \<and>
   seed \<lparr>e_ny = 1, e_nx = 1, e_xpos = [0], e_npoint = 2, e_point_pos = [0, 0, 0, pi / 2],
            e_point_cos_dec = [1, 1], e_point_sin_dec = [0, 0],
            e_pix_cos_dec = [1], e_pix_sin_dec = [0]\<rparr> [0, 0] [0, 0] 1
        \<lparr>s_dists = [0], s_domains = [0], s_curr = [], s_next = [(0, 0)]\<rparr> =
     Some \<lparr>s_dists = [pi / 2], s_domains = [1], s_curr = [], s_next = [(0, 0), (0, 0)]\<rparr> \<and>
   (0::real) < pi / 2"
  by (simp add: precompute_def trig_table_def ival_def rd_def wr_def initial_def fill_step_def
      seed_def calc_dist_def dist_vincenty_helper_def update_def atan2_0_1 atan2_1_0
      eval_nat_numeral)

lemma relax_write:
  assumes "e_ny E = e_nx E" "relax E ipoint y x off st = Some st'"
  shows "st' = st \<or>
         (\<exists>w old v. rd (s_dists st) w = Some old \<and> v < old \<and>
            s_dists st' = (s_dists st)[nat w := v])"
proof (cases "st' = st")
  case True
  then show ?thesis by simp
next
  case False
  define w where "w = wrap (e_ny E) (y + fst off) * e_nx E + wrap (e_nx E) (x + snd off)"
  from assms False obtain v old where
    o: "rd (s_dists st) w = Some old" and lt: "v < old" and
    u: "update E (wrap (e_ny E) (y + fst off)) (wrap (e_nx E) (x + snd off)) v ipoint st = Some st'"
    by (auto simp: relax_def Let_def w_def split: bind_splits if_splits)
  from u have "s_dists st' = (s_dists st)[nat w := v]"
    by (auto simp: update_def wr_def w_def split: bind_splits if_splits)
  with o lt show ?thesis by blast
qed

lemma seed_write:
  assumes "seed E point_y point_x i st = Some st'"
  shows "\<exists>w old v. rd (s_dists st) w = Some old \<and> v < unvisited \<and>
            s_dists st' = (s_dists st)[nat w := v]"
proof -
  from assms obtain y x v where
    c: "calc_dist E i y x = Some v" and u: "update E y x v i st = Some st'"
    by (auto simp: seed_def split: bind_splits)
  from u have "rd (s_dists st) (y * e_nx E + x) = Some (s_dists st ! nat (y * e_nx E + x))"
    "s_dists st' = (s_dists st)[nat (y * e_nx E + x) := v]"
    by (auto simp: update_def wr_def rd_def split: bind_splits if_splits)
  with calc_dist_below_unvisited [OF c] show ?thesis by blast
qed

text \<open>
  Claim C3, amended. On a grid with as many rows as columns, a relaxation of a
  neighbour either changes nothing or writes one cell of \<open>dists\<close> with a value
  strictly below the value the cell held; a seed writes one cell with a value below
  the unvisited value.
\<close>

theorem writes_decrease_on_square_grid:
  assumes "e_ny E = e_nx E"
  shows "(relax E ipoint y x off st = Some st' \<longrightarrow>
            st' = st \<or>
            (\<exists>w old v. rd (s_dists st) w = Some old \<and> v < old \<and>
               s_dists st' = (s_dists st)[nat w := v])) \<and>
         (seed E point_y point_x i st = Some st'' \<longrightarrow>
            (\<exists>w old v. rd (s_dists st) w = Some old \<and> v < unvisited \<and>
               s_dists st'' = (s_dists st)[nat w := v]))"
  using relax_write [OF assms] seed_write by blast


theorem writes_decrease_on_square_grid_witness:
  "relax \<lparr>e_ny = 1, e_nx = 1, e_xpos = [0], e_npoint = 1, e_point_pos = [0, 0],
            e_point_cos_dec = [1], e_point_sin_dec = [0],
            e_pix_cos_dec = [1], e_pix_sin_dec = [0]\<rparr> 0 0 0 (0, - 1)
      \<lparr>s_dists = [unvisited], s_domains = [- 1], s_curr = [], s_next = []\<rparr> =
     Some \<lparr>s_dists = [0], s_domains = [0], s_curr = [], s_next = [(0, 0)]\<rparr> \<and>
   (\<exists>w old v. rd [unvisited] w = Some old \<and> v < old \<and> [0] = [unvisited][nat w := v]) \<and>
   seed \<lparr>e_ny = 1, e_nx = 1, e_xpos = [0], e_npoint = 1, e_point_pos = [0, 0],
            e_point_cos_dec = [1], e_point_sin_dec = [0],
            e_pix_cos_dec = [1], e_pix_sin_dec = [0]\<rparr> [0] [0] 0
      \<lparr>s_dists = [unvisited], s_domains = [- 1], s_curr = [], s_next = []\<rparr> =
     Some \<lparr>s_dists = [0], s_domains = [0], s_curr = [], s_next = [(0, 0)]\<rparr> \<and>
   (\<exists>w old v. rd [unvisited] w = Some old \<and> v < unvisited \<and> [0] = [unvisited][nat w := v])"
proof -
  let ?E = "\<lparr>e_ny = 1, e_nx = 1, e_xpos = [0], e_npoint = 1, e_point_pos = [0, 0],
            e_point_cos_dec = [1], e_point_sin_dec = [0],
            e_pix_cos_dec = [1], e_pix_sin_dec = [0]\<rparr>"
  let ?s = "\<lparr>s_dists = [unvisited], s_domains = [- 1], s_curr = [], s_next = []\<rparr>"
  let ?t = "\<lparr>s_dists = [0], s_domains = [0], s_curr = [], s_next = [(0, 0)]\<rparr>"
  have c: "calc_dist ?E 0 0 0 = Some 0"
    by (simp add: calc_dist_def rd_def dist_vincenty_helper_def atan2_0_1)
  have r: "relax ?E 0 0 0 (0, - 1) ?s = Some ?t"
    using below_unvisited(1) by (simp add: relax_def wrap_def rd_def wr_def update_def c)
  have s: "seed ?E [0] [0] 0 ?s = Some ?t"
    by (simp add: seed_def rd_def wr_def update_def c)
  have ne: "?t \<noteq> ?s" by simp
  from writes_decrease_on_square_grid [of ?E 0 0 0 "(0, - 1)" ?s ?t "[0]" "[0]" 0 ?t] r s ne
  show ?thesis by simp
qed

end
